theory Spec2Isabelle
  imports Main
begin

section \<open>Errors, build configuration and the element type\<close>

text \<open>
  The header \<^verbatim>\<open>vector.h\<close> defines \<^verbatim>\<open>RawMemory<T>\<close> (a raw block of storage) and
  \<^verbatim>\<open>Vector<T>\<close> (a dynamic array on top of it). The embedding keeps raw blocks in an
  explicit heap, pointers as block address plus offset, and every way the C++ can go
  wrong as an error value: a failed \<^verbatim>\<open>assert\<close>, an access outside an allocated block,
  use of a slot that holds no constructed object, a pointer range or difference that is
  not defined, and the release of a block that is not allocated.

  \<^verbatim>\<open>size_t\<close> is modelled by \<open>nat\<close>: a block of \<open>2^63\<close> objects cannot be allocated, so
  the additions and doublings of the code, which start from the size of a block that
  exists, never wrap. The two subtractions the code does not guard are written with
  their wrap-around (\<open>size_t_sub\<close>). The operations of \<^verbatim>\<open>T\<close> never throw.

  \<^verbatim>\<open>operator new\<close> is modelled for the requests it grants in full (\<open>Allocate\<close> below). Two
  behaviours of the code are therefore outside the model: the product
  \<^verbatim>\<open>n * sizeof(T)\<close> of line 77 wrapping in \<^verbatim>\<open>size_t\<close>, which hands out a block of fewer than
  \<open>n\<close> slots, and \<^verbatim>\<open>operator new\<close> throwing \<^verbatim>\<open>std::bad_alloc\<close>. Neither can be excluded
  when the caller chooses the number of slots (\<^verbatim>\<open>Reserve\<close>, \<^verbatim>\<open>Resize\<close>, the sized
  constructor), so what is stated about such a call is stated for the calls that
  return, and only about the members \<^verbatim>\<open>capacity_\<close> and \<^verbatim>\<open>size_\<close>, which the code sets to
  the same values whatever block the allocation handed out.
\<close>

datatype error = AssertionFailed | BadAccess | RawSlot | BadRange | BadFree

text \<open>
  What the code takes from its environment: whether \<^verbatim>\<open>NDEBUG\<close> is defined (then
  \<^verbatim>\<open>assert\<close> does nothing), and of the type \<^verbatim>\<open>T\<close>: the value-initialised object
  \<^verbatim>\<open>T()\<close>, the state \<^verbatim>\<open>std::move\<close> leaves an object in once a move constructor or a
  move assignment has consumed it, and the compile-time condition
  \<^verbatim>\<open>is_nothrow_move_constructible_v<T> || !is_copy_constructible_v<T>\<close>.
\<close>

record 'a config =
  ndebug :: bool
  T_value_init :: 'a
  T_moved_from :: "'a \<Rightarrow> 'a"
  T_relocate_by_move :: bool

definition then_do :: "error + 'a \<Rightarrow> ('a \<Rightarrow> error + 'b) \<Rightarrow> error + 'b" where
  "then_do m f = (case m of Inl e \<Rightarrow> Inl e | Inr x \<Rightarrow> f x)"

definition assert_that :: "'a config \<Rightarrow> bool \<Rightarrow> error + unit" where
  "assert_that c b = (if ndebug c \<or> b then Inr () else Inl AssertionFailed)"

definition size_t_sub :: "nat \<Rightarrow> nat \<Rightarrow> nat" where
  "size_t_sub a b = (if b \<le> a then a - b else a + 2 ^ 64 - b)"

section \<open>The heap of raw blocks\<close>

type_synonym addr = nat

text \<open>
  A block is allocated at address \<open>a\<close> when \<open>extent h a = Some n\<close>, with \<open>n\<close> slots;
  \<open>cell h a k\<close> is slot \<open>k\<close> of the block: \<open>None\<close> is raw memory, \<open>Some x\<close> a constructed
  object. \<open>brk\<close> is the next address \<^verbatim>\<open>operator new\<close> hands out.
\<close>

record 'a heap =
  extent :: "addr \<Rightarrow> nat option"
  cell :: "addr \<Rightarrow> nat \<Rightarrow> 'a option"
  brk :: addr

text \<open>A \<^verbatim>\<open>T*\<close>: the block it points into (\<open>None\<close> for \<^verbatim>\<open>nullptr\<close>) and the slot.\<close>

type_synonym ptr = "addr option \<times> nat"

definition ptr_add :: "ptr \<Rightarrow> nat \<Rightarrow> ptr" where
  "ptr_add p k = (fst p, snd p + k)"

definition ptr_diff :: "ptr \<Rightarrow> ptr \<Rightarrow> error + nat" where
  "ptr_diff p q = (if fst p = fst q \<and> snd q \<le> snd p then Inr (snd p - snd q) else Inl BadRange)"

definition slot :: "ptr \<Rightarrow> 'a heap \<Rightarrow> error + 'a option" where
  "slot p h =
     (case fst p of
        None \<Rightarrow> Inl BadAccess
      | Some a \<Rightarrow>
          (case extent h a of
             None \<Rightarrow> Inl BadAccess
           | Some n \<Rightarrow> if snd p < n then Inr (cell h a (snd p)) else Inl BadAccess))"

definition put :: "ptr \<Rightarrow> 'a option \<Rightarrow> 'a heap \<Rightarrow> 'a heap" where
  "put p v h =
     (case fst p of
        None \<Rightarrow> h
      | Some a \<Rightarrow> h\<lparr>cell := (cell h)(a := (cell h a)(snd p := v))\<rparr>)"

text \<open>Reading an object, placement \<^verbatim>\<open>new\<close>, assignment to an object, and its destructor.\<close>

definition load :: "ptr \<Rightarrow> 'a heap \<Rightarrow> error + 'a" where
  "load p h = then_do (slot p h) (\<lambda>v. case v of None \<Rightarrow> Inl RawSlot | Some x \<Rightarrow> Inr x)"

definition construct_at :: "ptr \<Rightarrow> 'a \<Rightarrow> 'a heap \<Rightarrow> error + 'a heap" where
  "construct_at p x h = then_do (slot p h) (\<lambda>_. Inr (put p (Some x) h))"

definition assign_at :: "ptr \<Rightarrow> 'a \<Rightarrow> 'a heap \<Rightarrow> error + 'a heap" where
  "assign_at p x h = then_do (load p h) (\<lambda>_. Inr (put p (Some x) h))"

definition destroy_at :: "ptr \<Rightarrow> 'a heap \<Rightarrow> error + 'a heap" where
  "destroy_at p h = then_do (load p h) (\<lambda>_. Inr (put p None h))"

text \<open>\<^verbatim>\<open>new (d) T(*s)\<close>, \<^verbatim>\<open>*d = *s\<close>, \<^verbatim>\<open>new (d) T(std::move(*s))\<close> and \<^verbatim>\<open>*d = std::move(*s)\<close>.\<close>

definition copy_construct :: "ptr \<Rightarrow> ptr \<Rightarrow> 'a heap \<Rightarrow> error + 'a heap" where
  "copy_construct d s h = then_do (load s h) (\<lambda>x. construct_at d x h)"

definition copy_assign :: "ptr \<Rightarrow> ptr \<Rightarrow> 'a heap \<Rightarrow> error + 'a heap" where
  "copy_assign d s h = then_do (load s h) (\<lambda>x. assign_at d x h)"

definition move_construct :: "'a config \<Rightarrow> ptr \<Rightarrow> ptr \<Rightarrow> 'a heap \<Rightarrow> error + 'a heap" where
  "move_construct c d s h =
     then_do (load s h) (\<lambda>x.
     then_do (construct_at d x h) (\<lambda>h1.
     Inr (put s (Some (T_moved_from c x)) h1)))"

definition move_assign :: "'a config \<Rightarrow> ptr \<Rightarrow> ptr \<Rightarrow> 'a heap \<Rightarrow> error + 'a heap" where
  "move_assign c d s h =
     then_do (load s h) (\<lambda>x.
     then_do (assign_at d x h) (\<lambda>h1.
     Inr (put s (Some (T_moved_from c x)) h1)))"

section \<open>The standard algorithms the header calls\<close>

fun uninitialized_value_construct_n :: "'a config \<Rightarrow> ptr \<Rightarrow> nat \<Rightarrow> 'a heap \<Rightarrow> error + 'a heap" where
  "uninitialized_value_construct_n c p 0 h = Inr h"
| "uninitialized_value_construct_n c p (Suc n) h =
     then_do (construct_at p (T_value_init c) h) (\<lambda>h1.
     uninitialized_value_construct_n c (ptr_add p 1) n h1)"

fun uninitialized_copy_n :: "ptr \<Rightarrow> nat \<Rightarrow> ptr \<Rightarrow> 'a heap \<Rightarrow> error + 'a heap" where
  "uninitialized_copy_n s 0 d h = Inr h"
| "uninitialized_copy_n s (Suc n) d h =
     then_do (copy_construct d s h) (\<lambda>h1.
     uninitialized_copy_n (ptr_add s 1) n (ptr_add d 1) h1)"

fun uninitialized_move_n :: "'a config \<Rightarrow> ptr \<Rightarrow> nat \<Rightarrow> ptr \<Rightarrow> 'a heap \<Rightarrow> error + 'a heap" where
  "uninitialized_move_n c s 0 d h = Inr h"
| "uninitialized_move_n c s (Suc n) d h =
     then_do (move_construct c d s h) (\<lambda>h1.
     uninitialized_move_n c (ptr_add s 1) n (ptr_add d 1) h1)"

text \<open>\<^verbatim>\<open>std::copy_n\<close> returns the end of the destination range, which the header uses.\<close>

fun copy_n :: "ptr \<Rightarrow> nat \<Rightarrow> ptr \<Rightarrow> 'a heap \<Rightarrow> error + (ptr \<times> 'a heap)" where
  "copy_n s 0 d h = Inr (d, h)"
| "copy_n s (Suc n) d h =
     then_do (copy_assign d s h) (\<lambda>h1.
     copy_n (ptr_add s 1) n (ptr_add d 1) h1)"

fun destroy_n :: "ptr \<Rightarrow> nat \<Rightarrow> 'a heap \<Rightarrow> error + 'a heap" where
  "destroy_n p 0 h = Inr h"
| "destroy_n p (Suc n) h =
     then_do (destroy_at p h) (\<lambda>h1. destroy_n (ptr_add p 1) n h1)"

text \<open>
  \<^verbatim>\<open>std::move(first_p, last_p, d_first)\<close> moves front to back, and
  \<^verbatim>\<open>std::move_backward(first_p, last_p, d_last)\<close> back to front; both need
  \<open>first_p \<le> last_p\<close> in one block.
\<close>

fun move_forward_n :: "'a config \<Rightarrow> ptr \<Rightarrow> nat \<Rightarrow> ptr \<Rightarrow> 'a heap \<Rightarrow> error + 'a heap" where
  "move_forward_n c s 0 d h = Inr h"
| "move_forward_n c s (Suc n) d h =
     then_do (move_assign c d s h) (\<lambda>h1.
     move_forward_n c (ptr_add s 1) n (ptr_add d 1) h1)"

definition std_move :: "'a config \<Rightarrow> ptr \<Rightarrow> ptr \<Rightarrow> ptr \<Rightarrow> 'a heap \<Rightarrow> error + 'a heap" where
  "std_move c first_p last_p d_first h =
     then_do (ptr_diff last_p first_p) (\<lambda>n. move_forward_n c first_p n d_first h)"

fun move_backward_n :: "'a config \<Rightarrow> ptr \<Rightarrow> nat \<Rightarrow> ptr \<Rightarrow> 'a heap \<Rightarrow> error + 'a heap" where
  "move_backward_n c last_p 0 d_last h = Inr h"
| "move_backward_n c last_p (Suc n) d_last h =
     (if snd last_p = 0 \<or> snd d_last = 0 then Inl BadRange
      else
        then_do (move_assign c (fst d_last, snd d_last - 1) (fst last_p, snd last_p - 1) h) (\<lambda>h1.
        move_backward_n c (fst last_p, snd last_p - 1) n (fst d_last, snd d_last - 1) h1))"

definition move_backward :: "'a config \<Rightarrow> ptr \<Rightarrow> ptr \<Rightarrow> ptr \<Rightarrow> 'a heap \<Rightarrow> error + 'a heap" where
  "move_backward c first_p last_p d_last h =
     then_do (ptr_diff last_p first_p) (\<lambda>n. move_backward_n c last_p n d_last h)"

section \<open>RawMemory\<close>

text \<open>
  \<^verbatim>\<open>RawMemory<T>\<close> (vector.h, lines 11 to 86): the pointer \<^verbatim>\<open>buffer_\<close> and the number of
  slots \<^verbatim>\<open>capacity_\<close>. Isabelle does not accept a name that ends in an underscore, so the
  members \<^verbatim>\<open>buffer_\<close>, \<^verbatim>\<open>capacity_\<close>, \<^verbatim>\<open>data_\<close> and \<^verbatim>\<open>size_\<close> are \<open>buffer_m\<close>,
  \<open>capacity_m\<close>, \<open>data_m\<close> and \<open>size_m\<close>. A constructor returns the new object, the
  destructor \<open>RawMemory_destroy\<close> releases the block, \<open>RawMemory_plus\<close> is \<^verbatim>\<open>operator+\<close> and
  \<open>RawMemory_index\<close> is \<^verbatim>\<open>operator[]\<close>, both returning the address of the slot.
\<close>

record RawMemory =
  buffer_m :: "addr option"
  capacity_m :: nat

text \<open>
  \<^verbatim>\<open>Allocate(n)\<close> (lines 76 to 78) is \<^verbatim>\<open>n != 0 ? operator new(n * sizeof(T)) : nullptr\<close>.
  The definition below is the case in which the byte count \<^verbatim>\<open>n * sizeof(T)\<close> is below
  \<open>2^64\<close> and \<^verbatim>\<open>operator new\<close> returns: a fresh block of \<open>n\<close> raw slots. For an \<open>n\<close> with
  \<open>2^64 \<le> n * sizeof(T)\<close> the code asks for the wrapped byte count and gets a block of
  fewer than \<open>n\<close> slots (none at all for \<open>n = 2^62\<close> and a \<open>T\<close> of four bytes), while
  \<^verbatim>\<open>capacity_\<close> is still set to \<open>n\<close>; and \<^verbatim>\<open>operator new\<close> may throw. On such a request the
  block of the model is not the block of the program.
\<close>

definition Allocate :: "nat \<Rightarrow> 'a heap \<Rightarrow> addr option \<times> 'a heap" where
  "Allocate n h =
     (if n \<noteq> 0
      then (Some (brk h),
            h\<lparr>extent := (extent h)(brk h := Some n),
              cell := (cell h)(brk h := (\<lambda>_. None)),
              brk := Suc (brk h)\<rparr>)
      else (None, h))"

definition Deallocate :: "addr option \<Rightarrow> 'a heap \<Rightarrow> error + 'a heap" where
  "Deallocate buf h =
     (case buf of
        None \<Rightarrow> Inr h
      | Some a \<Rightarrow>
          if extent h a = None then Inl BadFree
          else Inr (h\<lparr>extent := (extent h)(a := None)\<rparr>))"

definition RawMemory_default :: RawMemory where
  "RawMemory_default = \<lparr>buffer_m = None, capacity_m = 0\<rparr>"

definition RawMemory_sized :: "nat \<Rightarrow> 'a heap \<Rightarrow> RawMemory \<times> 'a heap" where
  "RawMemory_sized capacity h =
     (let (b, h1) = Allocate capacity h in (\<lparr>buffer_m = b, capacity_m = capacity\<rparr>, h1))"

definition GetAddress :: "RawMemory \<Rightarrow> ptr" where
  "GetAddress m = (buffer_m m, 0)"

text \<open>The move constructor returns the new object and what it leaves of the other.\<close>

definition RawMemory_move :: "RawMemory \<Rightarrow> RawMemory \<times> RawMemory" where
  "RawMemory_move other =
     (\<lparr>buffer_m = buffer_m other, capacity_m = capacity_m other\<rparr>,
      other\<lparr>buffer_m := None, capacity_m := 0\<rparr>)"

definition RawMemory_destroy :: "RawMemory \<Rightarrow> 'a heap \<Rightarrow> error + 'a heap" where
  "RawMemory_destroy m h = Deallocate (buffer_m m) h"

definition RawMemory_plus :: "'a config \<Rightarrow> RawMemory \<Rightarrow> nat \<Rightarrow> error + ptr" where
  "RawMemory_plus c m offset =
     then_do (assert_that c (offset \<le> capacity_m m)) (\<lambda>_. Inr (buffer_m m, offset))"

definition RawMemory_index :: "'a config \<Rightarrow> RawMemory \<Rightarrow> nat \<Rightarrow> error + ptr" where
  "RawMemory_index c m index =
     then_do (assert_that c (index < capacity_m m)) (\<lambda>_. Inr (buffer_m m, index))"

definition RawMemory_Swap :: "RawMemory \<Rightarrow> RawMemory \<Rightarrow> RawMemory \<times> RawMemory" where
  "RawMemory_Swap m other =
     (m\<lparr>buffer_m := buffer_m other, capacity_m := capacity_m other\<rparr>,
      other\<lparr>buffer_m := buffer_m m, capacity_m := capacity_m m\<rparr>)"

section \<open>Vector: the methods that work on one object\<close>

text \<open>
  \<^verbatim>\<open>Vector<T>\<close> (vector.h, lines 88 to 303). A method that works on \<^verbatim>\<open>*this\<close> alone takes the
  object and the heap and returns both as it leaves them, after the value it returns if it
  returns one (an iterator is returned as the pointer it is). \<open>Vector_default\<close>,
  \<open>Vector_sized\<close>, \<open>Vector_copy\<close> and \<open>Vector_move\<close> are the four constructors,
  \<open>Vector_destroy\<close> the destructor, \<open>Vector_index\<close> is \<^verbatim>\<open>operator[]\<close>, and \<open>begin_it\<close>,
  \<open>end_it\<close> are \<^verbatim>\<open>begin()\<close> and \<^verbatim>\<open>end()\<close>. A position is passed as the iterator the caller
  passes, and the methods compute \<^verbatim>\<open>position_num = pos - begin()\<close> from it. The argument
  pack of \<^verbatim>\<open>Emplace\<close> is the value the new element is constructed with. A local object
  of a method (\<^verbatim>\<open>new_data\<close>, \<^verbatim>\<open>rhs_copy\<close>) is a value of the model, and its destructor
  runs where its scope ends.
\<close>

record Vector =
  data_m :: RawMemory
  size_m :: nat

definition Size :: "Vector \<Rightarrow> nat" where
  "Size v = size_m v"

definition Capacity :: "Vector \<Rightarrow> nat" where
  "Capacity v = capacity_m (data_m v)"

definition begin_it :: "Vector \<Rightarrow> ptr" where
  "begin_it v = GetAddress (data_m v)"

definition end_it :: "Vector \<Rightarrow> ptr" where
  "end_it v = ptr_add (begin_it v) (size_m v)"

definition Vector_default :: Vector where
  "Vector_default = \<lparr>data_m = RawMemory_default, size_m = 0\<rparr>"

definition Vector_sized :: "'a config \<Rightarrow> nat \<Rightarrow> 'a heap \<Rightarrow> error + (Vector \<times> 'a heap)" where
  "Vector_sized c n h =
     (let (d, h1) = RawMemory_sized n h in
      then_do (uninitialized_value_construct_n c (GetAddress d) n h1) (\<lambda>h2.
      Inr (\<lparr>data_m = d, size_m = n\<rparr>, h2)))"

definition Vector_copy :: "Vector \<Rightarrow> 'a heap \<Rightarrow> error + (Vector \<times> 'a heap)" where
  "Vector_copy other h =
     (let (new_data, h1) = RawMemory_sized (Size other) h;
          sz = Size other
      in
      then_do (uninitialized_copy_n (GetAddress (data_m other)) (Size other) (GetAddress new_data) h1) (\<lambda>h2.
      let (d, new_data') = RawMemory_Swap RawMemory_default new_data in
      then_do (RawMemory_destroy new_data' h2) (\<lambda>h3.
      Inr (\<lparr>data_m = d, size_m = sz\<rparr>, h3))))"

definition Vector_move :: "Vector \<Rightarrow> Vector \<times> Vector" where
  "Vector_move other =
     (let (d, od) = RawMemory_move (data_m other) in
      (\<lparr>data_m = d, size_m = size_m other\<rparr>, \<lparr>data_m = od, size_m = 0\<rparr>))"

definition CopyConstruct :: "ptr \<Rightarrow> 'a \<Rightarrow> 'a heap \<Rightarrow> error + 'a heap" where
  "CopyConstruct buf elem h = construct_at buf elem h"

definition Destroy :: "ptr \<Rightarrow> 'a heap \<Rightarrow> error + 'a heap" where
  "Destroy buf h = destroy_at buf h"

fun DestroyN :: "ptr \<Rightarrow> nat \<Rightarrow> 'a heap \<Rightarrow> error + 'a heap" where
  "DestroyN buf 0 h = Inr h"
| "DestroyN buf (Suc n) h =
     then_do (Destroy buf h) (\<lambda>h1. DestroyN (ptr_add buf 1) n h1)"

definition Vector_destroy :: "Vector \<Rightarrow> 'a heap \<Rightarrow> error + 'a heap" where
  "Vector_destroy v h =
     then_do (DestroyN (GetAddress (data_m v)) (size_m v) h) (\<lambda>h1.
     RawMemory_destroy (data_m v) h1)"

definition Vector_index :: "'a config \<Rightarrow> Vector \<Rightarrow> nat \<Rightarrow> error + ptr" where
  "Vector_index c v index =
     then_do (assert_that c (index < size_m v)) (\<lambda>_. RawMemory_index c (data_m v) index)"

definition Swap_local :: "Vector \<Rightarrow> Vector \<Rightarrow> Vector \<times> Vector" where
  "Swap_local v other =
     (let (d, od) = RawMemory_Swap (data_m v) (data_m other);
          temp_size = size_m v
      in (\<lparr>data_m = d, size_m = size_m other\<rparr>, \<lparr>data_m = od, size_m = temp_size\<rparr>))"

definition Reserve :: "'a config \<Rightarrow> nat \<Rightarrow> Vector \<times> 'a heap \<Rightarrow> error + (Vector \<times> 'a heap)" where
  "Reserve c new_capacity vh =
     (let (v, h) = vh in
      if new_capacity \<le> Capacity v then Inr (v, h)
      else
        let (new_data, h1) = RawMemory_sized new_capacity h in
        then_do
          (if T_relocate_by_move c
           then uninitialized_move_n c (GetAddress (data_m v)) (size_m v) (GetAddress new_data) h1
           else uninitialized_copy_n (GetAddress (data_m v)) (size_m v) (GetAddress new_data) h1) (\<lambda>h2.
        let (d, new_data') = RawMemory_Swap (data_m v) new_data in
        then_do (DestroyN (GetAddress new_data') (size_m v) h2) (\<lambda>h3.
        then_do (RawMemory_destroy new_data' h3) (\<lambda>h4.
        Inr (v\<lparr>data_m := d\<rparr>, h4)))))"

definition Resize :: "'a config \<Rightarrow> nat \<Rightarrow> Vector \<times> 'a heap \<Rightarrow> error + (Vector \<times> 'a heap)" where
  "Resize c new_size vh =
     (let (v, h) = vh in
      then_do
        (if new_size > Capacity v then
           then_do (Reserve c new_size (v, h)) (\<lambda>(v1, h1).
           then_do (RawMemory_index c (data_m v1) (size_m v1)) (\<lambda>p.
           then_do (uninitialized_value_construct_n c p (size_t_sub new_size (size_m v1)) h1) (\<lambda>h2.
           Inr (v1, h2))))
         else if new_size < size_m v then
           then_do (RawMemory_index c (data_m v) new_size) (\<lambda>p.
           then_do (destroy_n p (size_m v - new_size) h) (\<lambda>h1.
           Inr (v, h1)))
         else
           then_do (RawMemory_index c (data_m v) (size_m v)) (\<lambda>p.
           then_do (uninitialized_value_construct_n c p (new_size - size_m v) h) (\<lambda>h1.
           Inr (v, h1)))) (\<lambda>(v2, h2).
      Inr (v2\<lparr>size_m := new_size\<rparr>, h2)))"

definition PopBack :: "'a config \<Rightarrow> Vector \<times> 'a heap \<Rightarrow> error + (Vector \<times> 'a heap)" where
  "PopBack c vh =
     (let (v, h) = vh in
      if size_m v \<noteq> 0 then
        then_do (RawMemory_index c (data_m v) (size_m v - 1)) (\<lambda>p.
        then_do (destroy_n p 1 h) (\<lambda>h1.
        Inr (v\<lparr>size_m := size_m v - 1\<rparr>, h1)))
      else Inr (v, h))"

definition MemoryRelocateEmplace ::
    "'a config \<Rightarrow> nat \<Rightarrow> 'a \<Rightarrow> Vector \<times> 'a heap \<Rightarrow> error + (Vector \<times> 'a heap)" where
  "MemoryRelocateEmplace c position_num args vh =
     (let (v, h) = vh;
          (new_data, h1) = RawMemory_sized (if size_m v = 0 then 1 else size_m v * 2) h
      in
      then_do (RawMemory_index c new_data position_num) (\<lambda>p.
      then_do (construct_at p args h1) (\<lambda>h2.
      then_do
        (if T_relocate_by_move c then
           then_do
             (if position_num \<noteq> 0
              then uninitialized_move_n c (GetAddress (data_m v)) position_num (GetAddress new_data) h2
              else Inr h2) (\<lambda>h3.
           if size_m v > position_num then
             then_do (RawMemory_index c (data_m v) position_num) (\<lambda>s.
             then_do (RawMemory_index c new_data (position_num + 1)) (\<lambda>d.
             uninitialized_move_n c s (size_m v - position_num) d h3))
           else Inr h3)
         else
           then_do
             (if position_num \<noteq> 0
              then uninitialized_copy_n (GetAddress (data_m v)) position_num (GetAddress new_data) h2
              else Inr h2) (\<lambda>h3.
           if size_m v > position_num then
             then_do (RawMemory_index c (data_m v) position_num) (\<lambda>s.
             then_do (RawMemory_index c new_data (position_num + 1)) (\<lambda>d.
             uninitialized_copy_n s (size_m v - position_num) d h3))
           else Inr h3)) (\<lambda>h4.
      then_do (destroy_n (GetAddress (data_m v)) (size_m v) h4) (\<lambda>h5.
      let (d, new_data') = RawMemory_Swap (data_m v) new_data in
      then_do (RawMemory_destroy new_data' h5) (\<lambda>h6.
      Inr (v\<lparr>data_m := d, size_m := size_m v + 1\<rparr>, h6)))))))"

definition NoMemoryRelocateEmplace ::
    "'a config \<Rightarrow> nat \<Rightarrow> 'a \<Rightarrow> Vector \<times> 'a heap \<Rightarrow> error + (Vector \<times> 'a heap)" where
  "NoMemoryRelocateEmplace c position_num args vh =
     (let (v, h) = vh in
      then_do
        (if position_num = size_m v then
           then_do (RawMemory_index c (data_m v) position_num) (\<lambda>p.
           construct_at p args h)
         else
           let temp = args in
           then_do (RawMemory_index c (data_m v) (size_m v)) (\<lambda>d.
           then_do (RawMemory_index c (data_m v) (size_t_sub (size_m v) 1)) (\<lambda>s.
           then_do (move_construct c d s h) (\<lambda>h1.
           then_do (RawMemory_index c (data_m v) position_num) (\<lambda>first_p.
           then_do (RawMemory_index c (data_m v) (size_t_sub (size_m v) 1)) (\<lambda>last_p.
           then_do (RawMemory_index c (data_m v) (size_m v)) (\<lambda>d_last.
           then_do (move_backward c first_p last_p d_last h1) (\<lambda>h2.
           then_do (RawMemory_index c (data_m v) position_num) (\<lambda>p.
           assign_at p temp h2))))))))) (\<lambda>h3.
      Inr (v\<lparr>size_m := size_m v + 1\<rparr>, h3)))"

definition Emplace ::
    "'a config \<Rightarrow> ptr \<Rightarrow> 'a \<Rightarrow> Vector \<times> 'a heap \<Rightarrow> error + (ptr \<times> Vector \<times> 'a heap)" where
  "Emplace c pos args vh =
     (let (v, h) = vh in
      then_do (ptr_diff pos (begin_it v)) (\<lambda>position_num.
      then_do
        (if size_m v = Capacity v
         then MemoryRelocateEmplace c position_num args (v, h)
         else NoMemoryRelocateEmplace c position_num args (v, h)) (\<lambda>(v1, h1).
      then_do (RawMemory_index c (data_m v1) position_num) (\<lambda>p.
      Inr (p, v1, h1)))))"

definition EmplaceBack ::
    "'a config \<Rightarrow> 'a \<Rightarrow> Vector \<times> 'a heap \<Rightarrow> error + (ptr \<times> Vector \<times> 'a heap)" where
  "EmplaceBack c args vh =
     then_do (Emplace c (end_it (fst vh)) args vh) (\<lambda>(_, v1, h1).
     then_do (RawMemory_index c (data_m v1) (size_t_sub (size_m v1) 1)) (\<lambda>p.
     Inr (p, v1, h1)))"

definition PushBack :: "'a config \<Rightarrow> 'a \<Rightarrow> Vector \<times> 'a heap \<Rightarrow> error + (Vector \<times> 'a heap)" where
  "PushBack c val vh = then_do (EmplaceBack c val vh) (\<lambda>(_, v1, h1). Inr (v1, h1))"

definition Insert ::
    "'a config \<Rightarrow> ptr \<Rightarrow> 'a \<Rightarrow> Vector \<times> 'a heap \<Rightarrow> error + (ptr \<times> Vector \<times> 'a heap)" where
  "Insert c pos val vh = Emplace c pos val vh"

definition Erase :: "'a config \<Rightarrow> ptr \<Rightarrow> Vector \<times> 'a heap \<Rightarrow> error + (ptr \<times> Vector \<times> 'a heap)" where
  "Erase c pos vh =
     (let (v, h) = vh in
      then_do (ptr_diff pos (begin_it v)) (\<lambda>position_num.
      then_do
        (if size_m v \<noteq> 0 then
           then_do (RawMemory_index c (data_m v) (position_num + 1)) (\<lambda>s.
           then_do (RawMemory_index c (data_m v) position_num) (\<lambda>d.
           then_do (move_assign c d s h) (\<lambda>h1.
           then_do (RawMemory_index c (data_m v) (position_num + 1)) (\<lambda>first_p.
           then_do (RawMemory_index c (data_m v) (size_m v - 1)) (\<lambda>last_p.
           then_do (RawMemory_index c (data_m v) position_num) (\<lambda>d_first.
           then_do (std_move c first_p last_p d_first h1) (\<lambda>h2.
           then_do (RawMemory_index c (data_m v) (size_m v - 1)) (\<lambda>p.
           then_do (destroy_n p 1 h2) (\<lambda>h3.
           Inr (v\<lparr>size_m := size_m v - 1\<rparr>, h3))))))))))
         else Inr (v, h)) (\<lambda>(v1, h1).
      then_do (RawMemory_index c (data_m v1) position_num) (\<lambda>p.
      Inr (p, v1, h1)))))"

section \<open>Vector: the methods that take a second Vector by reference\<close>

text \<open>
  Assignment and \<^verbatim>\<open>Swap\<close> receive a reference that may be the object itself, so here
  the Vector objects live in a store, \<open>objs\<close>, indexed by their identity, and the
  methods update fields of the store in the order of the statements of the code.
\<close>

record 'a world =
  objs :: "nat \<Rightarrow> Vector"
  mem :: "'a heap"

definition set_buffer :: "nat \<Rightarrow> addr option \<Rightarrow> (nat \<Rightarrow> Vector) \<Rightarrow> (nat \<Rightarrow> Vector)" where
  "set_buffer i b os = os(i := (os i)\<lparr>data_m := (data_m (os i))\<lparr>buffer_m := b\<rparr>\<rparr>)"

definition set_capacity :: "nat \<Rightarrow> nat \<Rightarrow> (nat \<Rightarrow> Vector) \<Rightarrow> (nat \<Rightarrow> Vector)" where
  "set_capacity i n os = os(i := (os i)\<lparr>data_m := (data_m (os i))\<lparr>capacity_m := n\<rparr>\<rparr>)"

definition set_size :: "nat \<Rightarrow> nat \<Rightarrow> (nat \<Rightarrow> Vector) \<Rightarrow> (nat \<Rightarrow> Vector)" where
  "set_size i n os = os(i := (os i)\<lparr>size_m := n\<rparr>)"

text \<open>\<^verbatim>\<open>RawMemory::operator=(RawMemory&&)\<close> on the \<^verbatim>\<open>data_\<close> members of two Vector objects.\<close>

definition RawMemory_move_assign :: "nat \<Rightarrow> nat \<Rightarrow> (nat \<Rightarrow> Vector) \<Rightarrow> (nat \<Rightarrow> Vector)" where
  "RawMemory_move_assign this rhs os =
     (let os1 = set_buffer this (buffer_m (data_m (os rhs))) os;
          os2 = set_buffer rhs None os1;
          os3 = set_capacity this (capacity_m (data_m (os2 rhs))) os2;
          os4 = set_capacity rhs 0 os3
      in os4)"

definition Vector_move_assign :: "nat \<Rightarrow> nat \<Rightarrow> 'a world \<Rightarrow> 'a world" where
  "Vector_move_assign this rhs w =
     (let os1 = RawMemory_move_assign this rhs (objs w);
          old = size_m (os1 rhs);
          os2 = set_size rhs 0 os1;
          os3 = set_size this old os2
      in w\<lparr>objs := os3\<rparr>)"

definition Swap :: "nat \<Rightarrow> nat \<Rightarrow> 'a world \<Rightarrow> 'a world" where
  "Swap this other w =
     (let os = objs w;
          tmp_buffer = buffer_m (data_m (os this));
          os1 = set_buffer this (buffer_m (data_m (os other))) os;
          os2 = set_buffer other tmp_buffer os1;
          tmp_capacity = capacity_m (data_m (os2 this));
          os3 = set_capacity this (capacity_m (data_m (os2 other))) os2;
          os4 = set_capacity other tmp_capacity os3;
          temp_size = size_m (os4 this);
          os5 = set_size this (size_m (os4 other)) os4;
          os6 = set_size other temp_size os5
      in w\<lparr>objs := os6\<rparr>)"

definition Vector_copy_assign :: "nat \<Rightarrow> nat \<Rightarrow> 'a world \<Rightarrow> error + 'a world" where
  "Vector_copy_assign this rhs w =
     (if this \<noteq> rhs then
        let v = objs w this; r = objs w rhs; h = mem w in
        if size_m r > capacity_m (data_m v) then
          then_do (Vector_copy r h) (\<lambda>(rhs_copy, h1).
          let (v1, rhs_copy1) = Swap_local v rhs_copy in
          then_do (Vector_destroy rhs_copy1 h1) (\<lambda>h2.
          Inr (w\<lparr>objs := (objs w)(this := v1), mem := h2\<rparr>)))
        else
          then_do
            (if size_m r < size_m v then
               then_do (copy_n (GetAddress (data_m r)) (size_m r) (GetAddress (data_m v)) h) (\<lambda>(end_p, h1).
               destroy_n end_p (size_m v - size_m r) h1)
             else
               then_do (copy_n (GetAddress (data_m r)) (size_m v) (GetAddress (data_m v)) h) (\<lambda>(end_p, h1).
               uninitialized_copy_n (ptr_add (GetAddress (data_m r)) (size_m v)) (size_m r - size_m v) end_p h1)) (\<lambda>h2.
          Inr (w\<lparr>objs := (objs w)(this := v\<lparr>size_m := size_m r\<rparr>), mem := h2\<rparr>))
      else Inr w)"

section \<open>What a Vector holds\<close>

text \<open>
  \<open>holds v h xs\<close>: the Vector \<open>v\<close> is well formed in the heap \<open>h\<close> and its elements are
  \<open>xs\<close>. Its size is the length of \<open>xs\<close> and at most its capacity; a null buffer has
  capacity 0; otherwise the buffer is an allocated block of exactly \<open>capacity\<close> slots,
  whose first \<open>size\<close> slots hold the elements, in order, and whose other slots are raw.
\<close>

definition holds :: "Vector \<Rightarrow> 'a heap \<Rightarrow> 'a list \<Rightarrow> bool" where
  "holds v h xs \<longleftrightarrow>
     size_m v = length xs \<and> length xs \<le> capacity_m (data_m v) \<and>
     (case buffer_m (data_m v) of
        None \<Rightarrow> capacity_m (data_m v) = 0
      | Some a \<Rightarrow>
          a < brk h \<and> extent h a = Some (capacity_m (data_m v)) \<and>
          map (cell h a) [0..<capacity_m (data_m v)] =
            map Some xs @ replicate (capacity_m (data_m v) - length xs) None)"

definition elements :: "Vector \<Rightarrow> 'a heap \<Rightarrow> 'a list" where
  "elements v h =
     (case buffer_m (data_m v) of
        None \<Rightarrow> []
      | Some a \<Rightarrow> map (\<lambda>k. the (cell h a k)) [0..<size_m v])"

definition invariant :: "Vector \<Rightarrow> 'a heap \<Rightarrow> bool" where
  "invariant v h \<longleftrightarrow> holds v h (elements v h)"

definition empty_heap :: "'a heap" where
  "empty_heap = \<lparr>extent = (\<lambda>_. None), cell = (\<lambda>_ _. None), brk = 0\<rparr>"

text \<open>Configurations of \<^verbatim>\<open>Vector<int>\<close>: moving an \<^verbatim>\<open>int\<close> copies it.\<close>

definition int_debug :: "int config" where
  "int_debug = \<lparr>ndebug = False, T_value_init = 0, T_moved_from = (\<lambda>x. x), T_relocate_by_move = True\<rparr>"

definition int_release :: "int config" where
  "int_release = \<lparr>ndebug = True, T_value_init = 0, T_moved_from = (\<lambda>x. x), T_relocate_by_move = True\<rparr>"

text \<open>The heap after \<^verbatim>\<open>operator new\<close> has handed out a block of \<open>n\<close> raw slots.\<close>

definition fresh_block :: "nat \<Rightarrow> 'a heap \<Rightarrow> 'a heap" where
  "fresh_block n h =
     h\<lparr>extent := (extent h)(brk h := Some n), cell := (cell h)(brk h := (\<lambda>_. None)), brk := Suc (brk h)\<rparr>"

text \<open>
  A Vector of capacity \<open>cap\<close> holding the list \<open>xs\<close> in a heap with that one block:
  the states of the examples.
\<close>

definition heap_of :: "'a list \<Rightarrow> nat \<Rightarrow> 'a heap" where
  "heap_of xs cap =
     \<lparr>extent = (\<lambda>a. if a = 0 then Some cap else None),
      cell = (\<lambda>a k. if a = 0 \<and> k < length xs then Some (xs ! k) else None),
      brk = 1\<rparr>"

definition vector_of :: "'a list \<Rightarrow> nat \<Rightarrow> Vector" where
  "vector_of xs cap = \<lparr>data_m = \<lparr>buffer_m = Some 0, capacity_m = cap\<rparr>, size_m = length xs\<rparr>"

section \<open>Sequences of calls\<close>

text \<open>
  A caller's sequence of \<^verbatim>\<open>PushBack\<close> and \<^verbatim>\<open>PopBack\<close> calls on one Vector, run in
  order and stopped by the first error; the size the calls should leave, counting pushes
  up and pops down but never below 0; and the list they should leave.
\<close>

datatype 'a call = PushBack_call 'a | PopBack_call

fun run_calls :: "'a config \<Rightarrow> 'a call list \<Rightarrow> Vector \<times> 'a heap \<Rightarrow> error + (Vector \<times> 'a heap)" where
  "run_calls c [] vh = Inr vh"
| "run_calls c (PushBack_call x # cs) vh = then_do (PushBack c x vh) (run_calls c cs)"
| "run_calls c (PopBack_call # cs) vh = then_do (PopBack c vh) (run_calls c cs)"

fun net_count :: "'a call list \<Rightarrow> nat \<Rightarrow> nat" where
  "net_count [] n = n"
| "net_count (PushBack_call x # cs) n = net_count cs (n + 1)"
| "net_count (PopBack_call # cs) n = net_count cs (if n = 0 then 0 else n - 1)"

fun list_after :: "'a call list \<Rightarrow> 'a list \<Rightarrow> 'a list" where
  "list_after [] xs = xs"
| "list_after (PushBack_call x # cs) xs = list_after cs (xs @ [x])"
| "list_after (PopBack_call # cs) xs = list_after cs (butlast xs)"

text \<open>
  The capacities a run of \<^verbatim>\<open>PushBack\<close> calls passes through, read after each call; and
  the capacities the growth rule predicts from a size and a capacity: a push that finds
  the size equal to the capacity doubles it, or makes it 1 when it is 0, and any other push
  leaves it.
\<close>

fun capacity_trace :: "'a config \<Rightarrow> 'a list \<Rightarrow> Vector \<times> 'a heap \<Rightarrow> error + nat list" where
  "capacity_trace c [] vh = Inr []"
| "capacity_trace c (x # xs) vh =
     then_do (PushBack c x vh) (\<lambda>vh1.
     then_do (capacity_trace c xs vh1) (\<lambda>caps.
     Inr (Capacity (fst vh1) # caps)))"

fun doubling_rule :: "nat \<Rightarrow> nat \<Rightarrow> nat \<Rightarrow> nat list" where
  "doubling_rule 0 sz cap = []"
| "doubling_rule (Suc n) sz cap =
     (let cap1 = (if sz = cap then (if cap = 0 then 1 else sz * 2) else cap)
      in cap1 # doubling_rule n (sz + 1) cap1)"

section \<open>Observing results\<close>

text \<open>What a caller sees of a result: the error, or the size and the elements of the Vector.\<close>

definition observe :: "error + (Vector \<times> 'a heap) \<Rightarrow> error + (nat \<times> 'a list)" where
  "observe r = (case r of Inl e \<Rightarrow> Inl e | Inr (v, h) \<Rightarrow> Inr (Size v, elements v h))"

definition drop_iterator :: "error + (ptr \<times> Vector \<times> 'a heap) \<Rightarrow> error + (Vector \<times> 'a heap)" where
  "drop_iterator r = then_do r (\<lambda>(it, v, h). Inr (v, h))"

text \<open>
  The scenario of the specification: an empty Vector of integers, \<^verbatim>\<open>PushBack\<close> of 1, 2
  and 3, then \<^verbatim>\<open>Insert\<close> of 9 at position 1.
\<close>

definition scenario_1923 :: "int config \<Rightarrow> error + (Vector \<times> int heap)" where
  "scenario_1923 c =
     then_do (PushBack c 1 (Vector_default, empty_heap)) (\<lambda>s1.
     then_do (PushBack c 2 s1) (\<lambda>s2.
     then_do (PushBack c 3 s2) (\<lambda>s3.
     drop_iterator (Insert c (ptr_add (begin_it (fst s3)) 1) 9 s3))))"

text \<open>
  Two Vector objects for the examples of assignment: object 0 holds \<open>xs\<close> in a block of
  \<open>cap\<close> slots at address 0, every other object is default-constructed.
\<close>

definition world_of :: "'a list \<Rightarrow> nat \<Rightarrow> 'a world" where
  "world_of xs cap = \<lparr>objs = (\<lambda>_. Vector_default)(0 := vector_of xs cap), mem = heap_of xs cap\<rparr>"

text \<open>
  Object 0 holds \<open>xs\<close> in a block of \<open>cap\<close> slots at address 0, and object 1 holds \<open>ys\<close> in a
  block of its own at address 1.
\<close>

definition two_vectors :: "'a list \<Rightarrow> nat \<Rightarrow> 'a list \<Rightarrow> 'a world" where
  "two_vectors xs cap ys =
     \<lparr>objs = (\<lambda>_. Vector_default)
        (0 := \<lparr>data_m = \<lparr>buffer_m = Some 0, capacity_m = cap\<rparr>, size_m = length xs\<rparr>,
         1 := \<lparr>data_m = \<lparr>buffer_m = Some 1, capacity_m = length ys\<rparr>, size_m = length ys\<rparr>),
      mem = \<lparr>extent = (\<lambda>a. if a = 0 then Some cap else if a = 1 then Some (length ys) else None),
             cell = (\<lambda>a k. if a = 0 \<and> k < length xs then Some (xs ! k)
                            else if a = 1 \<and> k < length ys then Some (ys ! k) else None),
             brk = 2\<rparr>\<rparr>"

section \<open>Basic facts\<close>

lemma then_do_Inr [simp]: "then_do (Inr x) f = f x"
  by (simp add: then_do_def)

lemma then_do_Inl [simp]: "then_do (Inl e) f = Inl e"
  by (simp add: then_do_def)

lemma then_do_eq_Inr: "then_do m f = Inr y \<longleftrightarrow> (\<exists>x. m = Inr x \<and> f x = Inr y)"
  by (cases m) simp_all

lemma assert_that_holds [simp]: "b \<Longrightarrow> assert_that c b = Inr ()"
  by (simp add: assert_that_def)

lemma RawMemory_index_ok [simp]:
  "i < capacity_m m \<Longrightarrow> RawMemory_index c m i = Inr (buffer_m m, i)"
  by (simp add: RawMemory_index_def)

lemma ptr_add_pair [simp]: "ptr_add (b, i) k = (b, i + k)"
  by (simp add: ptr_add_def)

lemma ptr_diff_pair [simp]: "j \<le> i \<Longrightarrow> ptr_diff (b, i) (b, j) = Inr (i - j)"
  by (simp add: ptr_diff_def)

lemma extent_put [simp]: "extent (put p v h) = extent h"
  by (simp add: put_def split: option.splits)

lemma brk_put [simp]: "brk (put p v h) = brk h"
  by (simp add: put_def split: option.splits)

lemma cell_put [simp]:
  "cell (put (Some a, k) v h) a' k' = (if a' = a \<and> k' = k then v else cell h a' k')"
  by (simp add: put_def)

lemma put_as_update:
  "put (Some a, k) v h = h\<lparr>cell := (\<lambda>a' k'. if a' = a \<and> k' = k then v else cell h a' k')\<rparr>"
  by (simp add: put_def fun_eq_iff)

lemma slot_ok [simp]:
  "extent h a = Some n \<Longrightarrow> k < n \<Longrightarrow> slot (Some a, k) h = Inr (cell h a k)"
  by (simp add: slot_def)

lemma load_ok [simp]:
  "extent h a = Some n \<Longrightarrow> k < n \<Longrightarrow> cell h a k = Some x \<Longrightarrow> load (Some a, k) h = Inr x"
  by (simp add: load_def)

lemma construct_at_ok [simp]:
  "extent h a = Some n \<Longrightarrow> k < n \<Longrightarrow> construct_at (Some a, k) x h = Inr (put (Some a, k) (Some x) h)"
  by (simp add: construct_at_def)

lemma assign_at_ok [simp]:
  "extent h a = Some n \<Longrightarrow> k < n \<Longrightarrow> cell h a k = Some y \<Longrightarrow>
   assign_at (Some a, k) x h = Inr (put (Some a, k) (Some x) h)"
  by (simp add: assign_at_def)

lemma destroy_at_ok [simp]:
  "extent h a = Some n \<Longrightarrow> k < n \<Longrightarrow> cell h a k = Some y \<Longrightarrow>
   destroy_at (Some a, k) h = Inr (put (Some a, k) None h)"
  by (simp add: destroy_at_def)

text \<open>The loops, each as one update of the cells.\<close>

lemma heap_cell_cong: "(\<And>a k. f a k = g a k) \<Longrightarrow> h\<lparr>cell := f\<rparr> = h\<lparr>cell := g\<rparr>"
proof -
  assume "\<And>a k. f a k = g a k"
  then have "f = g" by (simp add: fun_eq_iff)
  then show ?thesis by simp
qed

lemma cell_update_id: "(\<And>a k. f a k = cell h a k) \<Longrightarrow> h\<lparr>cell := f\<rparr> = h"
proof -
  assume "\<And>a k. f a k = cell h a k"
  then have "f = cell h" by (simp add: fun_eq_iff)
  then show ?thesis by simp
qed

lemma uninitialized_value_construct_n_ok:
  "extent h a = Some na \<Longrightarrow> j + n \<le> na \<Longrightarrow>
   uninitialized_value_construct_n c (Some a, j) n h =
     Inr (h\<lparr>cell := (\<lambda>a' k. if a' = a \<and> j \<le> k \<and> k < j + n then Some (T_value_init c)
                               else cell h a' k)\<rparr>)"
proof (induction n arbitrary: j h)
  case 0
  show ?case by simp (rule sym, rule cell_update_id, auto)
next
  case (Suc n)
  have step: "construct_at (Some a, j) (T_value_init c) h = Inr (put (Some a, j) (Some (T_value_init c)) h)"
    using Suc.prems by simp
  have rest: "uninitialized_value_construct_n c (Some a, Suc j) n (put (Some a, j) (Some (T_value_init c)) h) =
      Inr (put (Some a, j) (Some (T_value_init c)) h
        \<lparr>cell := (\<lambda>a' k. if a' = a \<and> Suc j \<le> k \<and> k < Suc j + n then Some (T_value_init c)
                          else cell (put (Some a, j) (Some (T_value_init c)) h) a' k)\<rparr>)"
    using Suc.prems by (intro Suc.IH) simp_all
  show ?case
    by (simp add: step rest) (auto simp: put_as_update intro!: heap_cell_cong)
qed

lemma destroy_n_ok:
  "extent h a = Some na \<Longrightarrow> j + n \<le> na \<Longrightarrow> \<forall>k. j \<le> k \<and> k < j + n \<longrightarrow> cell h a k \<noteq> None \<Longrightarrow>
   destroy_n (Some a, j) n h =
     Inr (h\<lparr>cell := (\<lambda>a' k. if a' = a \<and> j \<le> k \<and> k < j + n then None else cell h a' k)\<rparr>)"
proof (induction n arbitrary: j h)
  case 0
  show ?case by simp (rule sym, rule cell_update_id, auto)
next
  case (Suc n)
  from Suc.prems obtain y where y: "cell h a j = Some y"
    by (metis le_refl less_add_Suc1 not_None_eq add_Suc_right)
  have step: "destroy_at (Some a, j) h = Inr (put (Some a, j) None h)"
    using Suc.prems y by simp
  have rest: "destroy_n (Some a, Suc j) n (put (Some a, j) None h) =
      Inr (put (Some a, j) None h
        \<lparr>cell := (\<lambda>a' k. if a' = a \<and> Suc j \<le> k \<and> k < Suc j + n then None
                          else cell (put (Some a, j) None h) a' k)\<rparr>)"
    using Suc.prems by (intro Suc.IH) auto
  show ?case
    by (simp add: step rest) (auto simp: put_as_update intro!: heap_cell_cong)
qed

lemma DestroyN_ok:
  "extent h a = Some na \<Longrightarrow> j + n \<le> na \<Longrightarrow> \<forall>k. j \<le> k \<and> k < j + n \<longrightarrow> cell h a k \<noteq> None \<Longrightarrow>
   DestroyN (Some a, j) n h =
     Inr (h\<lparr>cell := (\<lambda>a' k. if a' = a \<and> j \<le> k \<and> k < j + n then None else cell h a' k)\<rparr>)"
proof (induction n arbitrary: j h)
  case 0
  show ?case by simp (rule sym, rule cell_update_id, auto)
next
  case (Suc n)
  from Suc.prems obtain y where y: "cell h a j = Some y"
    by (metis le_refl less_add_Suc1 not_None_eq add_Suc_right)
  have step: "Destroy (Some a, j) h = Inr (put (Some a, j) None h)"
    using Suc.prems y by (simp add: Destroy_def)
  have rest: "DestroyN (Some a, Suc j) n (put (Some a, j) None h) =
      Inr (put (Some a, j) None h
        \<lparr>cell := (\<lambda>a' k. if a' = a \<and> Suc j \<le> k \<and> k < Suc j + n then None
                          else cell (put (Some a, j) None h) a' k)\<rparr>)"
    using Suc.prems by (intro Suc.IH) auto
  show ?case
    by (simp add: step rest) (auto simp: put_as_update intro!: heap_cell_cong)
qed

lemma uninitialized_copy_n_ok:
  "extent h a = Some na \<Longrightarrow> extent h b = Some nb \<Longrightarrow> a \<noteq> b \<Longrightarrow> i + n \<le> na \<Longrightarrow> j + n \<le> nb \<Longrightarrow>
   \<forall>k. i \<le> k \<and> k < i + n \<longrightarrow> cell h a k \<noteq> None \<Longrightarrow>
   uninitialized_copy_n (Some a, i) n (Some b, j) h =
     Inr (h\<lparr>cell := (\<lambda>a' k. if a' = b \<and> j \<le> k \<and> k < j + n then cell h a (i + (k - j))
                               else cell h a' k)\<rparr>)"
proof (induction n arbitrary: i j h)
  case 0
  show ?case by simp (rule sym, rule cell_update_id, auto)
next
  case (Suc n)
  from Suc.prems obtain y where y: "cell h a i = Some y"
    by (metis le_refl less_add_Suc1 not_None_eq add_Suc_right)
  let ?h1 = "put (Some b, j) (Some y) h"
  have step: "copy_construct (Some b, j) (Some a, i) h = Inr ?h1"
    using Suc.prems y by (simp add: copy_construct_def)
  have rest: "uninitialized_copy_n (Some a, Suc i) n (Some b, Suc j) ?h1 =
      Inr (?h1\<lparr>cell := (\<lambda>a' k. if a' = b \<and> Suc j \<le> k \<and> k < Suc j + n
                                  then cell ?h1 a (Suc i + (k - Suc j)) else cell ?h1 a' k)\<rparr>)"
    using Suc.prems by (intro Suc.IH) auto
  have idx: "\<And>k. Suc j \<le> k \<Longrightarrow> Suc (i + (k - Suc j)) = i + (k - j)"
    by arith
  show ?case
    using Suc.prems(3) y
    apply (simp add: step rest)
    apply (simp add: put_as_update del: add_diff_assoc add_diff_assoc2)
    apply (rule heap_cell_cong)
    apply (auto simp del: add_diff_assoc add_diff_assoc2; (rule arg_cong [where f = "cell h a"])?; arith)
    done
qed

lemma copy_n_ok:
  "extent h a = Some na \<Longrightarrow> extent h b = Some nb \<Longrightarrow> a \<noteq> b \<Longrightarrow> i + n \<le> na \<Longrightarrow> j + n \<le> nb \<Longrightarrow>
   \<forall>k. i \<le> k \<and> k < i + n \<longrightarrow> cell h a k \<noteq> None \<Longrightarrow>
   \<forall>k. j \<le> k \<and> k < j + n \<longrightarrow> cell h b k \<noteq> None \<Longrightarrow>
   copy_n (Some a, i) n (Some b, j) h =
     Inr ((Some b, j + n),
          h\<lparr>cell := (\<lambda>a' k. if a' = b \<and> j \<le> k \<and> k < j + n then cell h a (i + (k - j))
                               else cell h a' k)\<rparr>)"
proof (induction n arbitrary: i j h)
  case 0
  show ?case by simp (rule sym, rule cell_update_id, auto)
next
  case (Suc n)
  from Suc.prems obtain y where y: "cell h a i = Some y"
    by (metis le_refl less_add_Suc1 not_None_eq add_Suc_right)
  from Suc.prems obtain z where z: "cell h b j = Some z"
    by (metis le_refl less_add_Suc1 not_None_eq add_Suc_right)
  let ?h1 = "put (Some b, j) (Some y) h"
  have step: "copy_assign (Some b, j) (Some a, i) h = Inr ?h1"
    using Suc.prems y z by (simp add: copy_assign_def)
  have rest: "copy_n (Some a, Suc i) n (Some b, Suc j) ?h1 =
      Inr ((Some b, Suc j + n),
           ?h1\<lparr>cell := (\<lambda>a' k. if a' = b \<and> Suc j \<le> k \<and> k < Suc j + n
                                  then cell ?h1 a (Suc i + (k - Suc j)) else cell ?h1 a' k)\<rparr>)"
    using Suc.prems by (intro Suc.IH) auto
  have idx: "\<And>k. Suc j \<le> k \<Longrightarrow> Suc (i + (k - Suc j)) = i + (k - j)"
    by arith
  show ?case
    using Suc.prems(3) y
    apply (simp add: step rest)
    apply (simp add: put_as_update del: add_diff_assoc add_diff_assoc2)
    apply (rule heap_cell_cong)
    apply (auto simp del: add_diff_assoc add_diff_assoc2; (rule arg_cong [where f = "cell h a"])?; arith)
    done
qed

lemma uninitialized_move_n_ok:
  "extent h a = Some na \<Longrightarrow> extent h b = Some nb \<Longrightarrow> a \<noteq> b \<Longrightarrow> i + n \<le> na \<Longrightarrow> j + n \<le> nb \<Longrightarrow>
   \<forall>k. i \<le> k \<and> k < i + n \<longrightarrow> cell h a k \<noteq> None \<Longrightarrow>
   uninitialized_move_n c (Some a, i) n (Some b, j) h =
     Inr (h\<lparr>cell := (\<lambda>a' k. if a' = b \<and> j \<le> k \<and> k < j + n then cell h a (i + (k - j))
                               else if a' = a \<and> i \<le> k \<and> k < i + n
                                    then map_option (T_moved_from c) (cell h a k)
                               else cell h a' k)\<rparr>)"
proof (induction n arbitrary: i j h)
  case 0
  show ?case by simp (rule sym, rule cell_update_id, auto)
next
  case (Suc n)
  from Suc.prems obtain y where y: "cell h a i = Some y"
    by (metis le_refl less_add_Suc1 not_None_eq add_Suc_right)
  let ?h1 = "put (Some a, i) (Some (T_moved_from c y)) (put (Some b, j) (Some y) h)"
  have step: "move_construct c (Some b, j) (Some a, i) h = Inr ?h1"
    using Suc.prems y by (simp add: move_construct_def)
  have rest: "uninitialized_move_n c (Some a, Suc i) n (Some b, Suc j) ?h1 =
      Inr (?h1\<lparr>cell := (\<lambda>a' k. if a' = b \<and> Suc j \<le> k \<and> k < Suc j + n
                                  then cell ?h1 a (Suc i + (k - Suc j))
                                else if a' = a \<and> Suc i \<le> k \<and> k < Suc i + n
                                  then map_option (T_moved_from c) (cell ?h1 a k)
                                else cell ?h1 a' k)\<rparr>)"
    using Suc.prems by (intro Suc.IH) auto
  have idx: "\<And>k. Suc j \<le> k \<Longrightarrow> Suc (i + (k - Suc j)) = i + (k - j)"
    by arith
  show ?case
    using Suc.prems(3) y
    apply (simp add: step rest)
    apply (simp add: put_as_update del: add_diff_assoc add_diff_assoc2)
    apply (rule heap_cell_cong)
    apply (auto simp del: add_diff_assoc add_diff_assoc2; (rule arg_cong [where f = "cell h a"])?; arith)
    done
qed

text \<open>Shifting a run of one block one slot to the right, from its back.\<close>

lemma move_backward_n_ok:
  "extent h a = Some na \<Longrightarrow> n \<le> q \<Longrightarrow> q < na \<Longrightarrow>
   \<forall>k. q - n \<le> k \<and> k \<le> q \<longrightarrow> cell h a k \<noteq> None \<Longrightarrow>
   move_backward_n c (Some a, q) n (Some a, Suc q) h =
     Inr (h\<lparr>cell := (\<lambda>a' k. if a' = a \<and> q - n < k \<and> k \<le> q then cell h a (k - 1)
                               else if a' = a \<and> k = q - n \<and> 0 < n
                                    then map_option (T_moved_from c) (cell h a k)
                               else cell h a' k)\<rparr>)"
proof (induction n arbitrary: q h)
  case 0
  show ?case by simp (rule sym, rule cell_update_id, auto)
next
  case (Suc n)
  then obtain q' where q': "q = Suc q'" by (cases q) auto
  from Suc.prems q' obtain y where y: "cell h a q' = Some y"
    by (metis diff_le_self le_SucI le_refl not_None_eq diff_Suc_Suc)
  from Suc.prems q' obtain z where z: "cell h a (Suc q') = Some z"
    by (metis diff_le_self le_refl not_None_eq)
  let ?h1 = "put (Some a, q') (Some (T_moved_from c y)) (put (Some a, Suc q') (Some y) h)"
  define F where "F = (\<lambda>a' k. if a' = a \<and> q' - n < k \<and> k \<le> q' then cell ?h1 a (k - 1)
                                else if a' = a \<and> k = q' - n \<and> 0 < n
                                  then map_option (T_moved_from c) (cell ?h1 a k)
                                else cell ?h1 a' k)"
  define G where "G = (\<lambda>a' k. if a' = a \<and> Suc q' - Suc n < k \<and> k \<le> Suc q' then cell h a (k - 1)
                               else if a' = a \<and> k = Suc q' - Suc n \<and> 0 < Suc n
                                    then map_option (T_moved_from c) (cell h a k)
                               else cell h a' k)"
  have step: "move_assign c (Some a, Suc q') (Some a, q') h = Inr ?h1"
    using Suc.prems y z q' by (simp add: move_assign_def)
  have rest: "move_backward_n c (Some a, q') n (Some a, Suc q') ?h1 = Inr (?h1\<lparr>cell := F\<rparr>)"
    unfolding F_def using Suc.prems q' by (intro Suc.IH) auto
  have pw: "F a' k = G a' k" for a' k
  proof -
    consider "a' \<noteq> a" | "a' = a" "k = Suc q'" | "a' = a" "k = q'" | "a' = a" "k < q'"
      | "a' = a" "Suc q' < k"
      by linarith
    then show ?thesis
    proof cases
      case 1
      then show ?thesis by (simp add: F_def G_def)
    next
      case 2
      have "q' - n < Suc q'" by arith
      with 2 show ?thesis using y by (simp add: F_def G_def)
    next
      case 3
      then show ?thesis using y Suc.prems(2) q' by (cases n) (auto simp: F_def G_def)
    next
      case 4
      then show ?thesis by (auto simp: F_def G_def)
    next
      case 5
      then show ?thesis by (auto simp: F_def G_def)
    qed
  qed
  then have FG: "F = G" by (intro ext)
  have e0: "?h1\<lparr>cell := F\<rparr> = h\<lparr>cell := F\<rparr>"
    by (simp add: put_def)
  have "move_backward_n c (Some a, Suc q') (Suc n) (Some a, Suc (Suc q')) h = Inr (h\<lparr>cell := G\<rparr>)"
    by (simp add: step rest e0 FG)
  then show ?case unfolding q' G_def .
qed

section \<open>Well-formed Vectors\<close>

lemma holds_cell:
  assumes "holds v h xs" "buffer_m (data_m v) = Some a" "k < capacity_m (data_m v)"
  shows "cell h a k = (if k < length xs then Some (xs ! k) else None)"
proof -
  let ?n = "capacity_m (data_m v)"
  from assms(1,2) have eq: "map (cell h a) [0..<?n] = map Some xs @ replicate (?n - length xs) None"
    and le: "length xs \<le> ?n"
    by (simp_all add: holds_def)
  have "cell h a k = map (cell h a) [0..<?n] ! k"
    using assms(3) by simp
  also have "\<dots> = (map Some xs @ replicate (?n - length xs) None) ! k"
    by (simp only: eq)
  also have "\<dots> = (if k < length xs then Some (xs ! k) else None)"
    using assms(3) le by (simp add: nth_append)
  finally show ?thesis .
qed

lemma holds_size: "holds v h xs \<Longrightarrow> size_m v = length xs"
  by (simp add: holds_def)

lemma holds_le: "holds v h xs \<Longrightarrow> length xs \<le> capacity_m (data_m v)"
  by (simp add: holds_def)

lemma holds_null: "holds v h xs \<Longrightarrow> buffer_m (data_m v) = None \<Longrightarrow> capacity_m (data_m v) = 0 \<and> xs = []"
  by (auto simp: holds_def)

lemma holds_block:
  "holds v h xs \<Longrightarrow> buffer_m (data_m v) = Some a \<Longrightarrow> a < brk h \<and> extent h a = Some (capacity_m (data_m v))"
  by (simp add: holds_def)

lemma holdsI:
  assumes "size_m v = length xs" "length xs \<le> capacity_m (data_m v)"
    and "buffer_m (data_m v) = Some a" "a < brk h" "extent h a = Some (capacity_m (data_m v))"
    and "\<And>k. k < capacity_m (data_m v) \<Longrightarrow> cell h a k = (if k < length xs then Some (xs ! k) else None)"
  shows "holds v h xs"
proof -
  let ?n = "capacity_m (data_m v)"
  have "map (cell h a) [0..<?n] = map Some xs @ replicate (?n - length xs) None"
  proof (rule nth_equalityI)
    show "length (map (cell h a) [0..<?n]) = length (map Some xs @ replicate (?n - length xs) None)"
      using assms(2) by simp
  next
    fix k assume "k < length (map (cell h a) [0..<?n])"
    then have k: "k < ?n" by simp
    then show "map (cell h a) [0..<?n] ! k = (map Some xs @ replicate (?n - length xs) None) ! k"
      using assms(6) [OF k] assms(2) by (simp add: nth_append)
  qed
  then show ?thesis
    using assms(1-5) by (simp add: holds_def)
qed

lemma holds_elements:
  assumes "holds v h xs"
  shows "elements v h = xs"
proof (cases "buffer_m (data_m v)")
  case None
  then show ?thesis using holds_null [OF assms] by (simp add: elements_def)
next
  case (Some a)
  have "map (\<lambda>k. the (cell h a k)) [0..<size_m v] = xs"
  proof (rule nth_equalityI)
    show "length (map (\<lambda>k. the (cell h a k)) [0..<size_m v]) = length xs"
      using holds_size [OF assms] by simp
  next
    fix k assume "k < length (map (\<lambda>k. the (cell h a k)) [0..<size_m v])"
    then have k: "k < length xs" using holds_size [OF assms] by simp
    then have "k < capacity_m (data_m v)" using holds_le [OF assms] by simp
    from holds_cell [OF assms Some this] k
    show "map (\<lambda>k. the (cell h a k)) [0..<size_m v] ! k = xs ! k"
      using holds_size [OF assms] by simp
  qed
  then show ?thesis using Some by (simp add: elements_def)
qed

lemma holds_invariant: "holds v h xs \<Longrightarrow> invariant v h"
  by (simp add: invariant_def holds_elements)

section \<open>Relocation into a fresh block\<close>

text \<open>
  Moving or copying a run into another block, as \<^verbatim>\<open>Reserve\<close> and
  \<^verbatim>\<open>MemoryRelocateEmplace\<close> choose at compile time: either way the destination receives
  the values, the source slots stay constructed, and nothing else changes.
\<close>

lemma relocate_ok:
  assumes "extent h a = Some na" "extent h b = Some nb" "a \<noteq> b" "i + n \<le> na" "j + n \<le> nb"
    and "\<forall>k. i \<le> k \<and> k < i + n \<longrightarrow> cell h a k \<noteq> None"
  shows "\<exists>h'. (if T_relocate_by_move c
               then uninitialized_move_n c (Some a, i) n (Some b, j) h
               else uninitialized_copy_n (Some a, i) n (Some b, j) h) = Inr h' \<and>
              extent h' = extent h \<and> brk h' = brk h \<and>
              (\<forall>a' k. a' \<noteq> a \<longrightarrow> cell h' a' k =
                  (if a' = b \<and> j \<le> k \<and> k < j + n then cell h a (i + (k - j)) else cell h a' k)) \<and>
              (\<forall>k. \<not> (i \<le> k \<and> k < i + n) \<longrightarrow> cell h' a k = cell h a k) \<and>
              (\<forall>k. (cell h' a k = None) = (cell h a k = None))"
proof (cases "T_relocate_by_move c")
  case True
  show ?thesis
    using True assms(3)
    by (simp add: uninitialized_move_n_ok [OF assms])
next
  case False
  show ?thesis
    using False assms(3)
    by (simp add: uninitialized_copy_n_ok [OF assms])
qed

section \<open>Reserve\<close>

lemma RawMemory_sized_ok:
  "n \<noteq> 0 \<Longrightarrow> RawMemory_sized n h = (\<lparr>buffer_m = Some (brk h), capacity_m = n\<rparr>, fresh_block n h)"
  by (simp add: RawMemory_sized_def Allocate_def fresh_block_def)

lemma fresh_block_simps [simp]:
  "extent (fresh_block n h) a = (if a = brk h then Some n else extent h a)"
  "cell (fresh_block n h) a k = (if a = brk h then None else cell h a k)"
  "brk (fresh_block n h) = Suc (brk h)"
  by (simp_all add: fresh_block_def)

lemma Deallocate_ok:
  "extent h a = Some n \<Longrightarrow> Deallocate (Some a) h = Inr (h\<lparr>extent := (extent h)(a := None)\<rparr>)"
  by (simp add: Deallocate_def)


lemma Reserve_grow:
  assumes hv: "holds v h xs" and gt: "Capacity v < n"
  shows "\<exists>v' h'. Reserve c n (v, h) = Inr (v', h') \<and> holds v' h' xs \<and>
           capacity_m (data_m v') = n \<and> buffer_m (data_m v') = Some (brk h)"
proof (cases "buffer_m (data_m v)")
  case None
  from holds_null [OF hv None] holds_size [OF hv]
  have z: "capacity_m (data_m v) = 0" "xs = []" "size_m v = 0" by simp_all
  from gt have n0: "n \<noteq> 0" by simp
  let ?v' = "v\<lparr>data_m := (data_m v)\<lparr>buffer_m := Some (brk h), capacity_m := n\<rparr>\<rparr>"
  have run: "Reserve c n (v, h) = Inr (?v', fresh_block n h)"
    using gt None z n0
    by (simp add: Reserve_def Capacity_def RawMemory_sized_ok GetAddress_def RawMemory_Swap_def
        RawMemory_destroy_def Deallocate_def)
  have "holds ?v' (fresh_block n h) xs"
    by (rule holdsI [where a = "brk h"]) (simp_all add: z)
  with run show ?thesis by auto
next
  case (Some a)
  note blk = holds_block [OF hv Some]
  let ?cap = "capacity_m (data_m v)"
  let ?h1 = "fresh_block n h"
  have sz: "size_m v = length xs" and le: "length xs \<le> ?cap"
    using holds_size [OF hv] holds_le [OF hv] by simp_all
  from gt have n0: "n \<noteq> 0" and capn: "?cap < n" by (simp_all add: Capacity_def)
  have ne: "a \<noteq> brk h" using blk by simp
  have live: "\<forall>k. 0 \<le> k \<and> k < 0 + length xs \<longrightarrow> cell ?h1 a k \<noteq> None"
    using holds_cell [OF hv Some] le ne by auto
  have "\<exists>h2. (if T_relocate_by_move c
               then uninitialized_move_n c (Some a, 0) (length xs) (Some (brk h), 0) ?h1
               else uninitialized_copy_n (Some a, 0) (length xs) (Some (brk h), 0) ?h1) = Inr h2 \<and>
              extent h2 = extent ?h1 \<and> brk h2 = brk ?h1 \<and>
              (\<forall>a' k. a' \<noteq> a \<longrightarrow> cell h2 a' k =
                  (if a' = brk h \<and> 0 \<le> k \<and> k < 0 + length xs then cell ?h1 a (0 + (k - 0)) else cell ?h1 a' k)) \<and>
              (\<forall>k. \<not> (0 \<le> k \<and> k < 0 + length xs) \<longrightarrow> cell h2 a k = cell ?h1 a k) \<and>
              (\<forall>k. (cell h2 a k = None) = (cell ?h1 a k = None))"
    using blk ne le capn live
    by (intro relocate_ok [where na = ?cap and nb = n]) simp_all
  then obtain h2 where
    reloc: "(if T_relocate_by_move c
               then uninitialized_move_n c (Some a, 0) (length xs) (Some (brk h), 0) ?h1
               else uninitialized_copy_n (Some a, 0) (length xs) (Some (brk h), 0) ?h1) = Inr h2"
    and ext2: "extent h2 = extent ?h1" and brk2: "brk h2 = brk ?h1"
    and new2: "\<And>k. cell h2 (brk h) k = (if k < length xs then cell h a k else None)"
    and old2: "\<And>k. (cell h2 a k = None) = (cell h a k = None)"
    using ne by (auto simp: eq_commute [of _ a])
  let ?h3 = "h2\<lparr>cell := (\<lambda>a' k. if a' = a \<and> 0 \<le> k \<and> k < 0 + length xs then None else cell h2 a' k)\<rparr>"
  have destroy: "DestroyN (Some a, 0) (length xs) h2 = Inr ?h3"
  proof (rule DestroyN_ok [where na = ?cap])
    show "extent h2 a = Some ?cap" using ext2 blk ne by simp
    show "0 + length xs \<le> ?cap" using le by simp
    show "\<forall>k. 0 \<le> k \<and> k < 0 + length xs \<longrightarrow> cell h2 a k \<noteq> None"
      using old2 live ne by simp
  qed
  let ?h4 = "?h3\<lparr>extent := (extent ?h3)(a := None)\<rparr>"
  have free: "Deallocate (Some a) ?h3 = Inr ?h4"
    using ext2 blk ne by (intro Deallocate_ok [where n = ?cap]) simp
  let ?v' = "v\<lparr>data_m := (data_m v)\<lparr>buffer_m := Some (brk h), capacity_m := n\<rparr>\<rparr>"
  have run: "Reserve c n (v, h) = Inr (?v', ?h4)"
    using gt Some sz n0 reloc destroy free
    by (cases "T_relocate_by_move c")
      (simp_all add: Reserve_def RawMemory_sized_ok GetAddress_def RawMemory_Swap_def
        RawMemory_destroy_def)
  have "holds ?v' ?h4 xs"
  proof (rule holdsI [where a = "brk h"])
    fix k assume "k < capacity_m (data_m ?v')"
    show "cell ?h4 (brk h) k = (if k < length xs then Some (xs ! k) else None)"
      using ne new2 [of k] holds_cell [OF hv Some, of k] le by auto
  qed (use sz le capn ne ext2 brk2 in simp_all)
  with run show ?thesis by auto
qed

section \<open>Emplace\<close>

lemma nth_inserted:
  assumes "p \<le> length xs" "k \<le> length xs"
  shows "(take p xs @ x # drop p xs) ! k = (if k < p then xs ! k else if k = p then x else xs ! (k - 1))"
proof -
  have lt: "length (take p xs) = p" using assms(1) by simp
  consider "k < p" | "k = p" | "p < k" by linarith
  then show ?thesis
  proof cases
    case 1
    then show ?thesis using lt by (simp add: nth_append)
  next
    case 2
    then show ?thesis using lt by (simp add: nth_append)
  next
    case 3
    then obtain m where m: "k = Suc (p + m)" using less_iff_Suc_add by auto
    have "(take p xs @ x # drop p xs) ! k = (x # drop p xs) ! (k - p)"
      using 3 lt by (simp add: nth_append)
    also have "\<dots> = drop p xs ! m" using m by simp
    also have "\<dots> = xs ! (p + m)" using assms m by simp
    finally show ?thesis using 3 m by simp
  qed
qed

lemma skip_empty_move:
  "(if 0 < n then uninitialized_move_n c s n d h else Inr h) = uninitialized_move_n c s n d h"
  by (cases n) simp_all

lemma skip_empty_copy:
  "(if 0 < n then uninitialized_copy_n s n d h else Inr h) = uninitialized_copy_n s n d h"
  by (cases n) simp_all

lemma destroy_n_from0:
  assumes "extent h a = Some na" "n \<le> na" "\<forall>k<n. cell h a k \<noteq> None"
  shows "destroy_n (Some a, 0) n h =
     Inr (h\<lparr>cell := (\<lambda>a' k. if a' = a \<and> k < n then None else cell h a' k)\<rparr>)"
  using destroy_n_ok [of h a na 0 n] assms by simp

lemma MemoryRelocateEmplace_ok:
  assumes hv: "holds v h xs" and full: "size_m v = capacity_m (data_m v)" and p: "p \<le> length xs"
  shows "\<exists>v' h'. MemoryRelocateEmplace c p x (v, h) = Inr (v', h') \<and>
           holds v' h' (take p xs @ x # drop p xs) \<and>
           capacity_m (data_m v') = (if size_m v = 0 then 1 else size_m v * 2)"
proof (cases "buffer_m (data_m v)")
  case None
  from holds_null [OF hv None] holds_size [OF hv] p
  have z: "capacity_m (data_m v) = 0" "xs = []" "size_m v = 0" "p = 0" by simp_all
  let ?b = "brk h"
  let ?h2 = "put (Some ?b, 0) (Some x) (fresh_block 1 h)"
  let ?v' = "v\<lparr>data_m := (data_m v)\<lparr>buffer_m := Some ?b, capacity_m := 1\<rparr>, size_m := 1\<rparr>"
  have run: "MemoryRelocateEmplace c p x (v, h) = Inr (?v', ?h2)"
    using None z
    by (simp add: MemoryRelocateEmplace_def RawMemory_sized_ok GetAddress_def RawMemory_Swap_def
        RawMemory_destroy_def Deallocate_def)
  have "holds ?v' ?h2 [x]"
    by (rule holdsI [where a = ?b]) simp_all
  with run z show ?thesis by auto
next
  case (Some a)
  note blk = holds_block [OF hv Some]
  let ?sz = "length xs"
  define N where "N = (if size_m v = 0 then 1 else size_m v * 2)"
  let ?b = "brk h"
  let ?h1 = "fresh_block N h"
  let ?h2 = "put (Some ?b, p) (Some x) ?h1"
  have sz: "size_m v = ?sz" and cap: "capacity_m (data_m v) = ?sz"
    using holds_size [OF hv] full by simp_all
  have szN: "?sz < N" using sz by (cases xs) (simp_all add: N_def)
  have N0: "N \<noteq> 0" using szN by linarith
  have pN: "p < N" using szN p by linarith
  have ne: "a \<noteq> ?b" using blk by simp
  have cells: "\<And>k. k < ?sz \<Longrightarrow> cell h a k = Some (xs ! k)"
    using holds_cell [OF hv Some] cap by simp
  have extb1: "extent ?h1 ?b = Some N" by simp
  have exta: "extent ?h2 a = Some ?sz" using blk ne cap by simp
  have extb: "extent ?h2 ?b = Some N" by simp
  have c2a: "\<And>k. cell ?h2 a k = cell h a k" using ne by simp
  have c2b: "\<And>k. cell ?h2 ?b k = (if k = p then Some x else None)" by simp
  \<comment> \<open>the prefix before the position\<close>
  have "\<exists>h3. (if T_relocate_by_move c
               then uninitialized_move_n c (Some a, 0) p (Some ?b, 0) ?h2
               else uninitialized_copy_n (Some a, 0) p (Some ?b, 0) ?h2) = Inr h3 \<and>
              extent h3 = extent ?h2 \<and> brk h3 = brk ?h2 \<and>
              (\<forall>a' k. a' \<noteq> a \<longrightarrow> cell h3 a' k =
                  (if a' = ?b \<and> 0 \<le> k \<and> k < 0 + p then cell ?h2 a (0 + (k - 0)) else cell ?h2 a' k)) \<and>
              (\<forall>k. \<not> (0 \<le> k \<and> k < 0 + p) \<longrightarrow> cell h3 a k = cell ?h2 a k) \<and>
              (\<forall>k. (cell h3 a k = None) = (cell ?h2 a k = None))"
  proof (intro relocate_ok [where na = ?sz and nb = N])
    show "extent ?h2 a = Some ?sz" by (rule exta)
    show "extent ?h2 ?b = Some N" by (rule extb)
    show "a \<noteq> ?b" by (rule ne)
    show "0 + p \<le> ?sz" using p by simp
    show "0 + p \<le> N" using pN by simp
    show "\<forall>k. 0 \<le> k \<and> k < 0 + p \<longrightarrow> cell ?h2 a k \<noteq> None"
      using ne cells p by simp
  qed
  then obtain h3 where
    r1: "(if T_relocate_by_move c
               then uninitialized_move_n c (Some a, 0) p (Some ?b, 0) ?h2
               else uninitialized_copy_n (Some a, 0) p (Some ?b, 0) ?h2) = Inr h3"
    and ext3: "extent h3 = extent ?h2" and brk3: "brk h3 = brk ?h2"
    and c3b: "\<And>k. cell h3 ?b k = (if k < p then cell h a k else if k = p then Some x else None)"
    and c3a: "\<And>k. p \<le> k \<Longrightarrow> cell h3 a k = cell h a k"
    and l3: "\<And>k. (cell h3 a k = None) = (cell h a k = None)"
    using ne by (auto simp: eq_commute [of _ a])
  \<comment> \<open>the suffix from the position on\<close>
  have "\<exists>h4. (if T_relocate_by_move c
               then uninitialized_move_n c (Some a, p) (?sz - p) (Some ?b, Suc p) h3
               else uninitialized_copy_n (Some a, p) (?sz - p) (Some ?b, Suc p) h3) = Inr h4 \<and>
              extent h4 = extent h3 \<and> brk h4 = brk h3 \<and>
              (\<forall>a' k. a' \<noteq> a \<longrightarrow> cell h4 a' k =
                  (if a' = ?b \<and> Suc p \<le> k \<and> k < Suc p + (?sz - p) then cell h3 a (p + (k - Suc p)) else cell h3 a' k)) \<and>
              (\<forall>k. \<not> (p \<le> k \<and> k < p + (?sz - p)) \<longrightarrow> cell h4 a k = cell h3 a k) \<and>
              (\<forall>k. (cell h4 a k = None) = (cell h3 a k = None))"
  proof (intro relocate_ok [where na = ?sz and nb = N])
    show "extent h3 a = Some ?sz" using ext3 exta by simp
    show "extent h3 ?b = Some N" using ext3 extb by simp
    show "a \<noteq> ?b" by (rule ne)
    show "p + (?sz - p) \<le> ?sz" using p by simp
    show "Suc p + (?sz - p) \<le> N" using p szN by simp
    show "\<forall>k. p \<le> k \<and> k < p + (?sz - p) \<longrightarrow> cell h3 a k \<noteq> None"
      using c3a cells p by simp
  qed
  then obtain h4 where
    r2: "(if T_relocate_by_move c
               then uninitialized_move_n c (Some a, p) (?sz - p) (Some ?b, Suc p) h3
               else uninitialized_copy_n (Some a, p) (?sz - p) (Some ?b, Suc p) h3) = Inr h4"
    and ext4: "extent h4 = extent h3" and brk4: "brk h4 = brk h3"
    and c4b: "\<And>k. cell h4 ?b k = (if Suc p \<le> k \<and> k < Suc p + (?sz - p) then cell h3 a (p + (k - Suc p)) else cell h3 ?b k)"
    and l4: "\<And>k. (cell h4 a k = None) = (cell h3 a k = None)"
    using ne by (auto simp: eq_commute [of _ a])
  let ?h5 = "h4\<lparr>cell := (\<lambda>a' k. if a' = a \<and> k < ?sz then None else cell h4 a' k)\<rparr>"
  have destroy: "destroy_n (Some a, 0) ?sz h4 = Inr ?h5"
  proof (rule destroy_n_from0 [where na = ?sz])
    show "extent h4 a = Some ?sz" using ext4 ext3 exta by simp
    show "?sz \<le> ?sz" by simp
    show "\<forall>k<?sz. cell h4 a k \<noteq> None"
      using l4 l3 cells by simp
  qed
  let ?h6 = "?h5\<lparr>extent := (extent ?h5)(a := None)\<rparr>"
  have free: "Deallocate (Some a) ?h5 = Inr ?h6"
    using ext4 ext3 exta by (intro Deallocate_ok [where n = ?sz]) simp
  let ?v' = "v\<lparr>data_m := (data_m v)\<lparr>buffer_m := Some ?b, capacity_m := N\<rparr>, size_m := ?sz + 1\<rparr>"
  have Neq: "(if xs = [] then 1 else size_m v * 2) = N"
    using sz by (simp add: N_def)
  have cons: "construct_at (Some ?b, p) x ?h1 = Inr ?h2"
    by (rule construct_at_ok [OF extb1 pN])
  have run: "MemoryRelocateEmplace c p x (v, h) = Inr (?v', ?h6)"
  proof (cases "T_relocate_by_move c")
    case True
    with r1 r2 have m1: "uninitialized_move_n c (Some a, 0) p (Some ?b, 0) ?h2 = Inr h3"
      and m2: "uninitialized_move_n c (Some a, p) (?sz - p) (Some ?b, Suc p) h3 = Inr h4"
      by simp_all
    show ?thesis
    proof (cases "p < ?sz")
      case True
      with \<open>T_relocate_by_move c\<close> show ?thesis
        using szN pN cap
        by (simp add: MemoryRelocateEmplace_def sz Neq RawMemory_sized_ok [OF N0] cons GetAddress_def
            Some skip_empty_move m1 m2 destroy RawMemory_Swap_def RawMemory_destroy_def free)
    next
      case False
      with p have e: "p = ?sz" by simp
      with m2 have h43: "h3 = h4" by simp
      from False \<open>T_relocate_by_move c\<close> show ?thesis
        using szN pN cap
        by (simp add: MemoryRelocateEmplace_def sz Neq RawMemory_sized_ok [OF N0] cons GetAddress_def
            Some skip_empty_move m1 h43 destroy RawMemory_Swap_def RawMemory_destroy_def free)
    qed
  next
    case False
    with r1 r2 have m1: "uninitialized_copy_n (Some a, 0) p (Some ?b, 0) ?h2 = Inr h3"
      and m2: "uninitialized_copy_n (Some a, p) (?sz - p) (Some ?b, Suc p) h3 = Inr h4"
      by simp_all
    show ?thesis
    proof (cases "p < ?sz")
      case True
      with \<open>\<not> T_relocate_by_move c\<close> show ?thesis
        using szN pN cap
        by (simp add: MemoryRelocateEmplace_def sz Neq RawMemory_sized_ok [OF N0] cons GetAddress_def
            Some skip_empty_copy m1 m2 destroy RawMemory_Swap_def RawMemory_destroy_def free)
    next
      case lt: False
      with p have e: "p = ?sz" by simp
      with m2 have h43: "h3 = h4" by simp
      from lt \<open>\<not> T_relocate_by_move c\<close> show ?thesis
        using szN pN cap
        by (simp add: MemoryRelocateEmplace_def sz Neq RawMemory_sized_ok [OF N0] cons GetAddress_def
            Some skip_empty_copy m1 h43 destroy RawMemory_Swap_def RawMemory_destroy_def free)
    qed
  qed
  have "holds ?v' ?h6 (take p xs @ x # drop p xs)"
  proof (rule holdsI [where a = ?b])
    fix k assume "k < capacity_m (data_m ?v')"
    then have kN: "k < N" by simp
    have "cell ?h6 ?b k = cell h4 ?b k" using ne by simp
    also have "\<dots> = (if k < p then Some (xs ! k) else if k = p then Some x
                       else if k \<le> ?sz then Some (xs ! (k - 1)) else None)"
    proof -
      consider "k < p" | "k = p" | "p < k" "k \<le> ?sz" | "?sz < k" using p by linarith
      then show ?thesis
      proof cases
        case 1
        then show ?thesis using c4b [of k] c3b [of k] cells [of k] p by simp
      next
        case 2
        then show ?thesis using c4b [of k] c3b [of k] by simp
      next
        case 3
        then obtain m where m: "k = Suc (p + m)" using less_iff_Suc_add by auto
        with 3 have "cell h4 ?b k = cell h3 a (p + m)" using c4b [of k] by simp
        also have "\<dots> = Some (xs ! (p + m))" using c3a [of "p + m"] cells [of "p + m"] 3 m by simp
        finally show ?thesis using 3 m by simp
      next
        case 4
        then show ?thesis using c4b [of k] c3b [of k] p by simp
      qed
    qed
    also have "\<dots> = (if k < length (take p xs @ x # drop p xs)
                      then Some ((take p xs @ x # drop p xs) ! k) else None)"
      using p by (simp add: nth_inserted)
    finally show "cell ?h6 ?b k =
        (if k < length (take p xs @ x # drop p xs) then Some ((take p xs @ x # drop p xs) ! k) else None)" .
  qed (use p szN brk4 brk3 ext4 ext3 ne in simp_all)
  with run sz show ?thesis by (auto simp: N_def)
qed

lemma NoMemoryRelocateEmplace_ok:
  assumes hv: "holds v h xs" and room: "size_m v < capacity_m (data_m v)" and p: "p \<le> length xs"
  shows "\<exists>h'. NoMemoryRelocateEmplace c p x (v, h) = Inr (v\<lparr>size_m := size_m v + 1\<rparr>, h') \<and>
           holds (v\<lparr>size_m := size_m v + 1\<rparr>) h' (take p xs @ x # drop p xs)"
proof -
  let ?cap = "capacity_m (data_m v)"
  let ?sz = "length xs"
  let ?ys = "take p xs @ x # drop p xs"
  let ?v' = "v\<lparr>size_m := size_m v + 1\<rparr>"
  have sz: "size_m v = ?sz" using holds_size [OF hv] .
  from room obtain a where Some: "buffer_m (data_m v) = Some a"
    using holds_null [OF hv] by (cases "buffer_m (data_m v)") auto
  note blk = holds_block [OF hv Some]
  have cells: "\<And>k. k < ?cap \<Longrightarrow> cell h a k = (if k < ?sz then Some (xs ! k) else None)"
    using holds_cell [OF hv Some] .
  have szc: "?sz < ?cap" using room sz by simp
  show ?thesis
  proof (cases "p = ?sz")
    case True
    let ?h' = "put (Some a, p) (Some x) h"
    have run: "NoMemoryRelocateEmplace c p x (v, h) = Inr (?v', ?h')"
      using True sz szc Some blk
      by (simp add: NoMemoryRelocateEmplace_def)
    have "holds ?v' ?h' ?ys"
    proof (rule holdsI [where a = a])
      fix k assume "k < capacity_m (data_m ?v')"
      then have k: "k < ?cap" by simp
      show "cell ?h' a k = (if k < length ?ys then Some (?ys ! k) else None)"
        using cells [OF k] True by (auto simp: nth_append)
    qed (use sz szc Some blk p in simp_all)
    with run show ?thesis by auto
  next
    case False
    with p have plt: "p < ?sz" by simp
    then obtain q where q: "?sz = Suc q" by (cases "?sz") auto
    have pq: "p \<le> q" using plt q by simp
    define y where "y = xs ! q"
    define h1 where "h1 = put (Some a, q) (Some (T_moved_from c y)) (put (Some a, Suc q) (Some y) h)"
    have ext1: "extent h1 = extent h" and brk1: "brk h1 = brk h" by (simp_all add: h1_def)
    have c1: "\<And>k. cell h1 a k = (if k = q then Some (T_moved_from c y)
                                   else if k = Suc q then Some y else cell h a k)"
      by (simp add: h1_def)
    have c1o: "\<And>a' k. a' \<noteq> a \<Longrightarrow> cell h1 a' k = cell h a' k"
      by (simp add: h1_def)
    have mc: "move_construct c (Some a, Suc q) (Some a, q) h = Inr h1"
      using blk szc q cells [of q] by (simp add: move_construct_def h1_def y_def)
    define h2 where "h2 = h1\<lparr>cell := (\<lambda>a' k. if a' = a \<and> q - (q - p) < k \<and> k \<le> q then cell h1 a (k - 1)
                               else if a' = a \<and> k = q - (q - p) \<and> 0 < q - p
                                    then map_option (T_moved_from c) (cell h1 a k)
                               else cell h1 a' k)\<rparr>"
    have mbn: "move_backward_n c (Some a, q) (q - p) (Some a, Suc q) h1 = Inr h2"
      unfolding h2_def
    proof (rule move_backward_n_ok [where na = ?cap])
      show "extent h1 a = Some ?cap" using ext1 blk by simp
      show "q - p \<le> q" by simp
      show "q < ?cap" using szc q by simp
      show "\<forall>k. q - (q - p) \<le> k \<and> k \<le> q \<longrightarrow> cell h1 a k \<noteq> None"
        using c1 cells szc q by simp
    qed
    have mb: "move_backward c (Some a, p) (Some a, q) (Some a, Suc q) h1 = Inr h2"
      using pq mbn by (simp add: move_backward_def)
    have ext2: "extent h2 = extent h" and brk2: "brk h2 = brk h"
      using ext1 brk1 by (simp_all add: h2_def)
    have c2: "cell h2 a k = (if p < k \<and> k \<le> q then cell h1 a (k - 1)
                             else if k = p \<and> p < q then map_option (T_moved_from c) (cell h1 a k)
                             else cell h1 a k)" for k
      using pq by (simp add: h2_def)
    have live_p: "\<exists>z. cell h2 a p = Some z"
    proof (cases "p < q")
      case True
      then show ?thesis using c2 [of p] c1 [of p] cells [of p] szc q by simp
    next
      case False
      with pq have "p = q" by simp
      then show ?thesis using c2 [of p] c1 [of p] by simp
    qed
    then obtain z where z: "cell h2 a p = Some z" ..
    let ?h3 = "put (Some a, p) (Some x) h2"
    have asg: "assign_at (Some a, p) x h2 = Inr ?h3"
      using ext2 blk szc plt z by (intro assign_at_ok [where n = ?cap and y = z]) simp_all
    have sub: "size_t_sub (Suc q) (Suc 0) = q" by (simp add: size_t_sub_def)
    have run: "NoMemoryRelocateEmplace c p x (v, h) = Inr (?v', ?h3)"
      using False szc q plt
      by (simp add: NoMemoryRelocateEmplace_def sz Some sub mc mb asg)
    have "holds ?v' ?h3 ?ys"
    proof (rule holdsI [where a = a])
      fix k assume "k < capacity_m (data_m ?v')"
      then have k: "k < ?cap" by simp
      have "cell ?h3 a k = (if k < p then Some (xs ! k) else if k = p then Some x
                       else if k \<le> ?sz then Some (xs ! (k - 1)) else None)"
      proof -
        consider "k < p" | "k = p" | "p < k" "k \<le> q" | "k = Suc q" | "Suc q < k" by linarith
        then show ?thesis
        proof cases
          case 1
          then show ?thesis using c2 [of k] c1 [of k] cells [OF k] pq q by simp
        next
          case 2
          then show ?thesis by simp
        next
          case 3
          then obtain m where m: "k = Suc m" by (cases k) auto
          with 3 have "cell ?h3 a k = cell h1 a m" using c2 [of k] by simp
          also have "\<dots> = Some (xs ! m)" using c1 [of m] cells [of m] 3 m q szc by simp
          finally show ?thesis using 3 m q by simp
        next
          case 4
          then show ?thesis using c2 [of k] c1 [of k] pq q by (simp add: y_def)
        next
          case 5
          then show ?thesis using c2 [of k] c1 [of k] cells [OF k] pq q by simp
        qed
      qed
      also have "\<dots> = (if k < length ?ys then Some (?ys ! k) else None)"
        using p by (simp add: nth_inserted)
      finally show "cell ?h3 a k = (if k < length ?ys then Some (?ys ! k) else None)" .
    qed (use sz szc Some blk p ext2 brk2 in simp_all)
    with run show ?thesis by auto
  qed
qed

lemma Emplace_ok:
  assumes hv: "holds v h xs" and p: "p \<le> length xs"
  shows "\<exists>v' h'. Emplace c (ptr_add (begin_it v) p) x (v, h) = Inr ((buffer_m (data_m v'), p), v', h') \<and>
           (if size_m v = Capacity v
            then MemoryRelocateEmplace c p x (v, h)
            else NoMemoryRelocateEmplace c p x (v, h)) = Inr (v', h') \<and>
           holds v' h' (take p xs @ x # drop p xs) \<and>
           load (buffer_m (data_m v'), p) h' = Inr x \<and>
           capacity_m (data_m v') =
             (if size_m v = capacity_m (data_m v)
              then (if size_m v = 0 then 1 else size_m v * 2) else capacity_m (data_m v))"
proof -
  let ?ys = "take p xs @ x # drop p xs"
  have "\<exists>v' h'. (if size_m v = Capacity v
                  then MemoryRelocateEmplace c p x (v, h)
                  else NoMemoryRelocateEmplace c p x (v, h)) = Inr (v', h') \<and>
          holds v' h' ?ys \<and>
          capacity_m (data_m v') =
             (if size_m v = capacity_m (data_m v)
              then (if size_m v = 0 then 1 else size_m v * 2) else capacity_m (data_m v))"
  proof (cases "size_m v = capacity_m (data_m v)")
    case True
    from MemoryRelocateEmplace_ok [OF hv True p, of c x] True
    show ?thesis by (simp add: Capacity_def)
  next
    case False
    then have "size_m v < capacity_m (data_m v)"
      using holds_size [OF hv] holds_le [OF hv] by simp
    from NoMemoryRelocateEmplace_ok [OF hv this p, of c x] False
    show ?thesis by (auto simp: Capacity_def)
  qed
  then obtain v' h' where
    step: "(if size_m v = Capacity v
                  then MemoryRelocateEmplace c p x (v, h)
                  else NoMemoryRelocateEmplace c p x (v, h)) = Inr (v', h')"
    and hv': "holds v' h' ?ys"
    and cap: "capacity_m (data_m v') =
             (if size_m v = capacity_m (data_m v)
              then (if size_m v = 0 then 1 else size_m v * 2) else capacity_m (data_m v))"
    by blast
  have len: "length ?ys = Suc (length xs)" using p by simp
  have pc: "p < capacity_m (data_m v')"
    using holds_le [OF hv'] len p by simp
  then obtain b where b: "buffer_m (data_m v') = Some b"
    using holds_null [OF hv'] by (cases "buffer_m (data_m v')") auto
  have "cell h' b p = Some x"
    using holds_cell [OF hv' b pc] p len by (simp add: nth_inserted)
  then have ld: "load (buffer_m (data_m v'), p) h' = Inr x"
    using b holds_block [OF hv' b] pc by simp
  have "Emplace c (ptr_add (begin_it v) p) x (v, h) = Inr ((buffer_m (data_m v'), p), v', h')"
    using step pc
    by (simp add: Emplace_def begin_it_def GetAddress_def ptr_diff_def ptr_add_def split del: if_split)
  with step hv' ld cap show ?thesis by blast
qed

lemma holds_vector_of: "length xs \<le> cap \<Longrightarrow> holds (vector_of xs cap) (heap_of xs cap) xs"
  by (rule holdsI [where a = 0]) (simp_all add: vector_of_def heap_of_def)

lemma begin_it_ptr: "ptr_add (begin_it v) p = (buffer_m (data_m v), p)"
  by (simp add: begin_it_def GetAddress_def ptr_add_def)

text \<open>
  C2. For every well-formed Vector holding \<open>xs\<close> and every position \<open>p\<close> with
  \<open>p \<le> length xs\<close> (an iterator in \<open>[begin, end]\<close>), \<open>Emplace\<close> at that position succeeds,
  through \<open>MemoryRelocateEmplace\<close> when the Vector is full and through
  \<open>NoMemoryRelocateEmplace\<close> otherwise; the iterator it returns is the position in the new
  Vector and reads the new value; the size grows by exactly one; and the Vector then holds
  the old elements before the position, the new value, and the old elements from the
  position on, in their order.
\<close>

theorem Emplace_inserts_at_position:
  assumes "holds v h xs" and "p \<le> length xs"
  shows "\<exists>it v' h'.
           Emplace c (ptr_add (begin_it v) p) x (v, h) = Inr (it, v', h') \<and>
           (if Size v = Capacity v
            then MemoryRelocateEmplace c p x (v, h)
            else NoMemoryRelocateEmplace c p x (v, h)) = Inr (v', h') \<and>
           it = ptr_add (begin_it v') p \<and>
           load it h' = Inr x \<and>
           Size v' = Size v + 1 \<and>
           holds v' h' (take p xs @ x # drop p xs) \<and>
           elements v' h' = take p xs @ x # drop p xs"
proof -
  from Emplace_ok [OF assms, of c x] obtain v' h' where
    run: "Emplace c (ptr_add (begin_it v) p) x (v, h) = Inr ((buffer_m (data_m v'), p), v', h')"
    and hv': "holds v' h' (take p xs @ x # drop p xs)"
    and ld: "load (buffer_m (data_m v'), p) h' = Inr x"
    and path: "(if size_m v = Capacity v
            then MemoryRelocateEmplace c p x (v, h)
            else NoMemoryRelocateEmplace c p x (v, h)) = Inr (v', h')"
    by blast
  have "Size v' = Size v + 1"
    using holds_size [OF hv'] holds_size [OF assms(1)] assms(2) by (simp add: Size_def)
  with run path hv' ld holds_elements [OF hv'] show ?thesis
    by (simp add: begin_it_ptr Size_def)
qed

theorem Emplace_inserts_at_position_witness:
  "holds (vector_of [1, 2, 3 :: int] 4) (heap_of [1, 2, 3 :: int] 4) [1, 2, 3 :: int] \<and>
   (1 :: nat) \<le> length [1, 2, 3 :: int] \<and>
   (\<exists>it v' h'.
      Emplace int_debug (ptr_add (begin_it (vector_of [1, 2, 3 :: int] 4)) 1) 9
        (vector_of [1, 2, 3 :: int] 4, heap_of [1, 2, 3 :: int] 4) = Inr (it, v', h') \<and>
      load it h' = Inr 9 \<and> Size v' = 4 \<and> elements v' h' = [1, 9, 2, 3]) \<and>
   holds (vector_of [1, 2, 3 :: int] 3) (heap_of [1, 2, 3 :: int] 3) [1, 2, 3 :: int] \<and>
   (\<exists>it v' h'.
      Emplace int_debug (ptr_add (begin_it (vector_of [1, 2, 3 :: int] 3)) 1) 9
        (vector_of [1, 2, 3 :: int] 3, heap_of [1, 2, 3 :: int] 3) = Inr (it, v', h') \<and>
      MemoryRelocateEmplace int_debug 1 9
        (vector_of [1, 2, 3 :: int] 3, heap_of [1, 2, 3 :: int] 3) = Inr (v', h') \<and>
      load it h' = Inr 9 \<and> Size v' = 4 \<and> elements v' h' = [1, 9, 2, 3])"
proof -
  have h: "holds (vector_of [1, 2, 3 :: int] 4) (heap_of [1, 2, 3 :: int] 4) [1, 2, 3 :: int]"
    by (rule holds_vector_of) simp
  have g: "holds (vector_of [1, 2, 3 :: int] 3) (heap_of [1, 2, 3 :: int] 3) [1, 2, 3 :: int]"
    by (rule holds_vector_of) simp
  have p: "(1 :: nat) \<le> length [1, 2, 3 :: int]" by simp
  from Emplace_inserts_at_position [OF g p, of int_debug 9] obtain it1 v1 h1 where
    run1: "Emplace int_debug (ptr_add (begin_it (vector_of [1, 2, 3 :: int] 3)) 1) 9
        (vector_of [1, 2, 3 :: int] 3, heap_of [1, 2, 3 :: int] 3) = Inr (it1, v1, h1)"
    and path1: "(if Size (vector_of [1, 2, 3 :: int] 3) = Capacity (vector_of [1, 2, 3 :: int] 3)
            then MemoryRelocateEmplace int_debug 1 9 (vector_of [1, 2, 3 :: int] 3, heap_of [1, 2, 3 :: int] 3)
            else NoMemoryRelocateEmplace int_debug 1 9 (vector_of [1, 2, 3 :: int] 3, heap_of [1, 2, 3 :: int] 3))
          = Inr (v1, h1)"
    and ld1: "load it1 h1 = Inr 9"
    and sz1: "Size v1 = Size (vector_of [1, 2, 3 :: int] 3) + 1"
    and el1: "elements v1 h1 = take 1 [1, 2, 3 :: int] @ 9 # drop 1 [1, 2, 3]"
    by blast
  from path1 have m1: "MemoryRelocateEmplace int_debug 1 9
        (vector_of [1, 2, 3 :: int] 3, heap_of [1, 2, 3 :: int] 3) = Inr (v1, h1)"
    by (simp add: Size_def Capacity_def vector_of_def)
  from sz1 have s1: "Size v1 = 4" by (simp add: Size_def vector_of_def)
  from el1 have e1: "elements v1 h1 = [1, 9, 2, 3]" by simp
  have grow: "\<exists>it v' h'.
      Emplace int_debug (ptr_add (begin_it (vector_of [1, 2, 3 :: int] 3)) 1) 9
        (vector_of [1, 2, 3 :: int] 3, heap_of [1, 2, 3 :: int] 3) = Inr (it, v', h') \<and>
      MemoryRelocateEmplace int_debug 1 9
        (vector_of [1, 2, 3 :: int] 3, heap_of [1, 2, 3 :: int] 3) = Inr (v', h') \<and>
      load it h' = Inr 9 \<and> Size v' = 4 \<and> elements v' h' = [1, 9, 2, 3]"
    using run1 m1 ld1 s1 e1 by blast
  from Emplace_inserts_at_position [OF h p, of int_debug 9] obtain it v' h' where
    run: "Emplace int_debug (ptr_add (begin_it (vector_of [1, 2, 3 :: int] 4)) 1) 9
        (vector_of [1, 2, 3 :: int] 4, heap_of [1, 2, 3 :: int] 4) = Inr (it, v', h')"
    and ld: "load it h' = Inr 9"
    and sz: "Size v' = Size (vector_of [1, 2, 3 :: int] 4) + 1"
    and el: "elements v' h' = take 1 [1, 2, 3 :: int] @ 9 # drop 1 [1, 2, 3]"
    by blast
  from sz have "Size v' = 4" by (simp add: Size_def vector_of_def)
  moreover from el have "elements v' h' = [1, 9, 2, 3]" by simp
  ultimately have "\<exists>it v' h'.
      Emplace int_debug (ptr_add (begin_it (vector_of [1, 2, 3 :: int] 4)) 1) 9
        (vector_of [1, 2, 3 :: int] 4, heap_of [1, 2, 3 :: int] 4) = Inr (it, v', h') \<and>
      load it h' = Inr 9 \<and> Size v' = 4 \<and> elements v' h' = [1, 9, 2, 3]"
    using run ld by blast
  with h g p grow show ?thesis by (intro conjI)
qed

section \<open>PopBack, EmplaceBack and PushBack\<close>

lemma PopBack_empty: "size_m v = 0 \<Longrightarrow> PopBack c (v, h) = Inr (v, h)"
  by (simp add: PopBack_def)

lemma PopBack_ok:
  assumes hv: "holds v h xs" and ne: "xs \<noteq> []"
  shows "\<exists>h'. PopBack c (v, h) = Inr (v\<lparr>size_m := size_m v - 1\<rparr>, h') \<and>
           holds (v\<lparr>size_m := size_m v - 1\<rparr>) h' (butlast xs)"
proof -
  let ?cap = "capacity_m (data_m v)"
  let ?v' = "v\<lparr>size_m := size_m v - 1\<rparr>"
  have sz: "size_m v = length xs" using holds_size [OF hv] .
  from ne obtain q where q: "length xs = Suc q" by (cases xs) auto
  have qc: "q < ?cap" using holds_le [OF hv] q by simp
  then obtain a where Some: "buffer_m (data_m v) = Some a"
    using holds_null [OF hv] by (cases "buffer_m (data_m v)") auto
  note blk = holds_block [OF hv Some]
  have cells: "\<And>k. k < ?cap \<Longrightarrow> cell h a k = (if k < length xs then Some (xs ! k) else None)"
    using holds_cell [OF hv Some] .
  let ?h' = "put (Some a, q) None h"
  have d1: "destroy_at (Some a, q) h = Inr ?h'"
    using blk qc cells [OF qc] q by (intro destroy_at_ok [where n = ?cap and y = "xs ! q"]) simp_all
  have run: "PopBack c (v, h) = Inr (?v', ?h')"
    using sz q qc Some d1 by (simp add: PopBack_def)
  have "holds ?v' ?h' (butlast xs)"
  proof (rule holdsI [where a = a])
    fix k assume "k < capacity_m (data_m ?v')"
    then have k: "k < ?cap" by simp
    show "cell ?h' a k = (if k < length (butlast xs) then Some (butlast xs ! k) else None)"
      using cells [OF k] q by (auto simp: nth_butlast)
  qed (use sz q qc Some blk in simp_all)
  with run show ?thesis by blast
qed

lemma EmplaceBack_ok:
  assumes hv: "holds v h xs"
  shows "\<exists>it v' h'. EmplaceBack c x (v, h) = Inr (it, v', h') \<and>
           holds v' h' (xs @ [x]) \<and> load it h' = Inr x \<and>
           capacity_m (data_m v') =
             (if size_m v = capacity_m (data_m v)
              then (if size_m v = 0 then 1 else size_m v * 2) else capacity_m (data_m v))"
proof -
  have sz: "size_m v = length xs" using holds_size [OF hv] .
  from Emplace_ok [OF hv le_refl, of c x] obtain v' h' where
    run: "Emplace c (ptr_add (begin_it v) (length xs)) x (v, h) = Inr ((buffer_m (data_m v'), length xs), v', h')"
    and hv': "holds v' h' (xs @ [x])"
    and ld: "load (buffer_m (data_m v'), length xs) h' = Inr x"
    and cap: "capacity_m (data_m v') =
             (if size_m v = capacity_m (data_m v)
              then (if size_m v = 0 then 1 else size_m v * 2) else capacity_m (data_m v))"
    by auto
  have sz': "size_m v' = Suc (length xs)" using holds_size [OF hv'] by simp
  have lt: "length xs < capacity_m (data_m v')" using holds_le [OF hv'] by simp
  have sub: "size_t_sub (Suc (length xs)) (Suc 0) = length xs" by (simp add: size_t_sub_def)
  have "EmplaceBack c x (v, h) = Inr ((buffer_m (data_m v'), length xs), v', h')"
    using run lt by (simp add: EmplaceBack_def end_it_def sz sz' sub)
  with hv' ld cap show ?thesis by blast
qed

lemma PushBack_ok:
  assumes hv: "holds v h xs"
  shows "\<exists>v' h'. PushBack c x (v, h) = Inr (v', h') \<and> holds v' h' (xs @ [x]) \<and>
           capacity_m (data_m v') =
             (if size_m v = capacity_m (data_m v)
              then (if size_m v = 0 then 1 else size_m v * 2) else capacity_m (data_m v))"
proof -
  from EmplaceBack_ok [OF hv, of c x] obtain it v' h' where
    "EmplaceBack c x (v, h) = Inr (it, v', h')" "holds v' h' (xs @ [x])"
    "capacity_m (data_m v') =
             (if size_m v = capacity_m (data_m v)
              then (if size_m v = 0 then 1 else size_m v * 2) else capacity_m (data_m v))"
    by blast
  then show ?thesis by (simp add: PushBack_def)
qed

lemma run_calls_ok:
  "holds v h xs \<Longrightarrow>
   \<exists>v' h'. run_calls c cs (v, h) = Inr (v', h') \<and> holds v' h' (list_after cs xs) \<and>
           length (list_after cs xs) = net_count cs (length xs)"
proof (induction cs arbitrary: v h xs)
  case Nil
  then show ?case by simp
next
  case (Cons call cs)
  show ?case
  proof (cases call)
    case (PushBack_call x)
    from PushBack_ok [OF Cons.prems, of c x] obtain v1 h1 where
      p: "PushBack c x (v, h) = Inr (v1, h1)" and h1: "holds v1 h1 (xs @ [x])"
      by blast
    from Cons.IH [OF h1] show ?thesis using p PushBack_call by simp
  next
    case PopBack_call
    show ?thesis
    proof (cases "xs = []")
      case True
      then have "PopBack c (v, h) = Inr (v, h)"
        using holds_size [OF Cons.prems] by (simp add: PopBack_empty)
      with Cons.IH [OF Cons.prems] True PopBack_call show ?thesis by simp
    next
      case False
      from PopBack_ok [OF Cons.prems False, of c] obtain h1 where
        p: "PopBack c (v, h) = Inr (v\<lparr>size_m := size_m v - 1\<rparr>, h1)"
        and h1: "holds (v\<lparr>size_m := size_m v - 1\<rparr>) h1 (butlast xs)"
        by blast
      from Cons.IH [OF h1] show ?thesis using p PopBack_call False by simp
    qed
  qed
qed

text \<open>
  C7. For every well-formed Vector and every finite sequence of \<open>PushBack\<close> and \<open>PopBack\<close>
  calls, the calls all succeed and the size afterwards is the running count of pushes minus
  pops, kept at 0 where a pop finds the count at 0 (the Vector then holds the list the
  calls describe); and \<open>PopBack\<close> on a Vector of size 0 returns normally and changes
  neither the Vector nor the heap.
\<close>

theorem PushBack_PopBack_net_size:
  assumes "holds v h xs"
  shows "(\<exists>v' h'. run_calls c cs (v, h) = Inr (v', h') \<and>
            Size v' = net_count cs (Size v) \<and> holds v' h' (list_after cs xs)) \<and>
         (Size v = 0 \<longrightarrow> PopBack c (v, h) = Inr (v, h))"
proof -
  from run_calls_ok [OF assms, of c cs] obtain v' h' where
    r: "run_calls c cs (v, h) = Inr (v', h')" and h': "holds v' h' (list_after cs xs)"
    and n: "length (list_after cs xs) = net_count cs (length xs)"
    by blast
  have "Size v' = net_count cs (Size v)"
    using holds_size [OF h'] holds_size [OF assms] n by (simp add: Size_def)
  with r h' show ?thesis by (auto simp: Size_def PopBack_empty)
qed

theorem PushBack_PopBack_net_size_witness:
  "holds (vector_of [7 :: int] 1) (heap_of [7 :: int] 1) [7 :: int] \<and>
   (\<exists>v' h'. run_calls int_debug [PopBack_call, PopBack_call, PushBack_call 4, PushBack_call 5, PopBack_call]
               (vector_of [7 :: int] 1, heap_of [7 :: int] 1) = Inr (v', h') \<and>
      Size v' = 1 \<and> elements v' h' = [4]) \<and>
   holds Vector_default (empty_heap :: int heap) [] \<and> Size Vector_default = 0 \<and>
   PopBack int_debug (Vector_default, empty_heap) = Inr (Vector_default, empty_heap)"
proof -
  have h: "holds (vector_of [7 :: int] 1) (heap_of [7 :: int] 1) [7 :: int]"
    by (rule holds_vector_of) simp
  have e: "holds Vector_default (empty_heap :: int heap) []"
    by (simp add: holds_def Vector_default_def RawMemory_default_def)
  have z: "Size Vector_default = 0"
    by (simp add: Size_def Vector_default_def)
  from PushBack_PopBack_net_size [OF h, of int_debug
      "[PopBack_call, PopBack_call, PushBack_call 4, PushBack_call 5, PopBack_call]"]
  obtain v' h' where
    r: "run_calls int_debug [PopBack_call, PopBack_call, PushBack_call 4, PushBack_call 5, PopBack_call]
               (vector_of [7 :: int] 1, heap_of [7 :: int] 1) = Inr (v', h')"
    and s: "Size v' = net_count [PopBack_call, PopBack_call, PushBack_call (4 :: int), PushBack_call 5, PopBack_call]
               (Size (vector_of [7 :: int] 1))"
    and l: "holds v' h' (list_after [PopBack_call, PopBack_call, PushBack_call 4, PushBack_call 5, PopBack_call] [7 :: int])"
    by blast
  from s have "Size v' = 1" by (simp add: Size_def vector_of_def)
  moreover from holds_elements [OF l] have "elements v' h' = [4]" by simp
  ultimately have "\<exists>v' h'. run_calls int_debug [PopBack_call, PopBack_call, PushBack_call 4, PushBack_call 5, PopBack_call]
               (vector_of [7 :: int] 1, heap_of [7 :: int] 1) = Inr (v', h') \<and>
      Size v' = 1 \<and> elements v' h' = [4]"
    using r by blast
  moreover from PushBack_PopBack_net_size [OF e, of int_debug "[]"] z
  have "PopBack int_debug (Vector_default, empty_heap) = Inr (Vector_default, empty_heap)"
    by blast
  ultimately show ?thesis using h e z by blast
qed

section \<open>Growth by doubling\<close>

lemma capacity_trace_ok:
  "holds v h ys \<Longrightarrow>
   capacity_trace c xs (v, h) = Inr (doubling_rule (length xs) (size_m v) (capacity_m (data_m v)))"
proof (induction xs arbitrary: v h ys)
  case Nil
  then show ?case by simp
next
  case (Cons x xs)
  from PushBack_ok [OF Cons.prems, of c x] obtain v1 h1 where
    p: "PushBack c x (v, h) = Inr (v1, h1)" and h1: "holds v1 h1 (ys @ [x])"
    and cap: "capacity_m (data_m v1) =
             (if size_m v = capacity_m (data_m v)
              then (if size_m v = 0 then 1 else size_m v * 2) else capacity_m (data_m v))"
    by blast
  have sz1: "size_m v1 = size_m v + 1"
    using holds_size [OF h1] holds_size [OF Cons.prems] by simp
  show ?case
    using Cons.IH [OF h1] p cap sz1
    by (auto simp: Capacity_def Let_def)
qed

lemma doubling_rule_length [simp]: "length (doubling_rule n sz cap) = n"
  by (induction n arbitrary: sz cap) (simp_all add: Let_def)

lemma doubling_rule_powers:
  assumes "(sz = 0 \<and> cap = 0) \<or> (\<exists>k. cap = 2 ^ k \<and> sz \<le> cap \<and> cap < 2 * sz)" and "i < n"
  shows "\<exists>k. doubling_rule n sz cap ! i = 2 ^ k \<and> sz + i + 1 \<le> 2 ^ k \<and> 2 ^ k < 2 * (sz + i + 1)"
  using assms
proof (induction n arbitrary: sz cap i)
  case 0
  then show ?case by simp
next
  case (Suc n)
  define cap1 where "cap1 = (if sz = cap then (if cap = 0 then 1 else sz * 2) else cap)"
  have next_ok: "\<exists>k. cap1 = 2 ^ k \<and> sz + 1 \<le> cap1 \<and> cap1 < 2 * (sz + 1)"
  proof (cases "sz = 0 \<and> cap = 0")
    case True
    then have "cap1 = 2 ^ 0" by (simp add: cap1_def)
    with True show ?thesis by (intro exI [of _ 0]) simp
  next
    case False
    with Suc.prems(1) obtain k where k: "cap = 2 ^ k" "sz \<le> cap" "cap < 2 * sz" by blast
    show ?thesis
    proof (cases "sz = cap")
      case True
      with k have "cap1 = 2 ^ Suc k" by (simp add: cap1_def)
      with True k show ?thesis by (intro exI [of _ "Suc k"]) simp
    next
      case False
      with k have "cap1 = 2 ^ k" by (simp add: cap1_def)
      with False k show ?thesis by (intro exI [of _ k]) simp
    qed
  qed
  have unfold: "doubling_rule (Suc n) sz cap = cap1 # doubling_rule n (sz + 1) cap1"
    by (simp add: cap1_def Let_def)
  show ?case
  proof (cases i)
    case 0
    from next_ok obtain k where "cap1 = 2 ^ k" "sz + 1 \<le> cap1" "cap1 < 2 * (sz + 1)" by blast
    then show ?thesis unfolding unfold 0 by (intro exI [of _ k]) simp
  next
    case (Suc j)
    with Suc.prems(2) have j: "j < n" by simp
    from next_ok have "(sz + 1 = 0 \<and> cap1 = 0) \<or> (\<exists>k. cap1 = 2 ^ k \<and> sz + 1 \<le> cap1 \<and> cap1 < 2 * (sz + 1))"
      by blast
    from Suc.IH [OF this j] show ?thesis unfolding unfold Suc by simp
  qed
qed

lemma holds_default: "holds Vector_default empty_heap []"
  by (simp add: holds_def Vector_default_def RawMemory_default_def)

text \<open>
  C5. For every run of \<open>PushBack\<close> calls on a default-constructed Vector (size 0, capacity 0,
  no block), the calls succeed and the capacities after each call are those of the growth
  rule started at size 0 and capacity 0: a push that finds the size equal to the capacity
  makes the capacity twice the size, or 1 when it was 0, any other push leaves it. So the
  capacity after the push number \<open>i + 1\<close> is a power of two, at least \<open>i + 1\<close> and less
  than twice that: 1, 2, 4, 4, 8, 8, 8, 8, 16, ...
\<close>

theorem PushBack_capacities_double:
  "capacity_trace c xs (Vector_default, empty_heap) = Inr (doubling_rule (length xs) 0 0) \<and>
   (\<forall>i<length xs. \<exists>k. doubling_rule (length xs) 0 0 ! i = 2 ^ k \<and>
        i + 1 \<le> 2 ^ k \<and> 2 ^ k < 2 * (i + 1))"
proof -
  have "capacity_trace c xs (Vector_default, empty_heap) = Inr (doubling_rule (length xs) 0 0)"
    using capacity_trace_ok [OF holds_default, of c xs]
    by (simp add: Vector_default_def RawMemory_default_def)
  moreover have "\<exists>k. doubling_rule (length xs) 0 0 ! i = 2 ^ k \<and> i + 1 \<le> 2 ^ k \<and> 2 ^ k < 2 * (i + 1)"
    if "i < length xs" for i
    using doubling_rule_powers [of 0 0 i "length xs"] that by simp
  ultimately show ?thesis by blast
qed

theorem PushBack_capacities_double_witness:
  "capacity_trace int_debug [10, 20, 30, 40, 50] (Vector_default, empty_heap) = Inr [1, 2, 4, 4, 8] \<and>
   (4 :: nat) < length [10, 20, 30, 40, 50 :: int] \<and>
   (\<exists>k. doubling_rule (length [10, 20, 30, 40, 50 :: int]) 0 0 ! 4 = 2 ^ k \<and> 4 + 1 \<le> (2 :: nat) ^ k \<and>
        (2 :: nat) ^ k < 2 * (4 + 1))"
proof -
  have d: "doubling_rule (length [10, 20, 30, 40, 50 :: int]) 0 0 = [1, 2, 4, 4, 8]"
    by (simp add: eval_nat_numeral Let_def)
  have l: "(4 :: nat) < length [10, 20, 30, 40, 50 :: int]" by simp
  from PushBack_capacities_double [of int_debug "[10, 20, 30, 40, 50]"] d l show ?thesis
    by (metis (no_types, lifting))
qed

section \<open>Erase on concrete Vectors\<close>

text \<open>
  C1. The specification's scenario, run on the code: after \<open>PushBack\<close> of 1, 2, 3 and \<open>Insert\<close>
  of 9 at position 1 the Vector has size 4 and elements \<open>[1, 9, 2, 3]\<close>; \<open>Erase\<close> at position 0
  then returns normally with size 3, but the elements are \<open>[9, 2, 2]\<close>: the last element, 3,
  is lost and 2 appears twice, where the claim (and the scenario) require \<open>[9, 2, 3]\<close>.
\<close>

theorem Erase_front_loses_last_element:
  "observe (scenario_1923 int_debug) = Inr (4, [1, 9, 2, 3]) \<and>
   observe (then_do (scenario_1923 int_debug) (\<lambda>s.
      drop_iterator (Erase int_debug (ptr_add (begin_it (fst s)) 0) s))) = Inr (3, [9, 2, 2])"
  by code_simp

text \<open>
  C9. With assertions enabled, \<open>Erase\<close> of the last element of a full Vector (size 4,
  capacity 4, position 3) passes index 4 to \<open>RawMemory_index\<close>, whose assertion
  \<open>index < capacity\<close> fails; and \<open>Erase\<close> on a default-constructed Vector (size 0, capacity 0)
  passes index 0 to it for the iterator it returns, and the assertion fails as well.
\<close>

theorem Erase_assertion_fires:
  "observe (scenario_1923 int_debug) = Inr (4, [1, 9, 2, 3]) \<and>
   then_do (scenario_1923 int_debug) (\<lambda>s. Inr (Capacity (fst s))) = Inr 4 \<and>
   observe (then_do (scenario_1923 int_debug) (\<lambda>s.
      drop_iterator (Erase int_debug (ptr_add (begin_it (fst s)) 3) s))) = Inl AssertionFailed \<and>
   observe (drop_iterator (Erase int_debug (begin_it Vector_default) (Vector_default, empty_heap))) =
      Inl AssertionFailed \<and>
   RawMemory_index int_debug \<lparr>buffer_m = Some 0, capacity_m = 4\<rparr> 4 = Inl AssertionFailed \<and>
   RawMemory_index int_debug RawMemory_default 0 = Inl AssertionFailed"
  by code_simp

section \<open>Move assignment\<close>

lemma Vector_move_assign_distinct:
  assumes "this \<noteq> rhs"
  shows "objs (Vector_move_assign this rhs w) this = objs w rhs"
    and "objs (Vector_move_assign this rhs w) rhs =
           \<lparr>data_m = \<lparr>buffer_m = None, capacity_m = 0\<rparr>, size_m = 0\<rparr>"
    and "i \<noteq> this \<Longrightarrow> i \<noteq> rhs \<Longrightarrow> objs (Vector_move_assign this rhs w) i = objs w i"
  using assms
  by (simp_all add: Vector_move_assign_def RawMemory_move_assign_def set_buffer_def set_capacity_def
      set_size_def Let_def)

lemma Vector_move_assign_self:
  "objs (Vector_move_assign this this w) this =
     \<lparr>data_m = \<lparr>buffer_m = None, capacity_m = 0\<rparr>, size_m = size_m (objs w this)\<rparr>"
  by (simp add: Vector_move_assign_def RawMemory_move_assign_def set_buffer_def set_capacity_def
      set_size_def Let_def)

text \<open>
  C3. Move assignment never touches the heap: for every pair of objects the blocks and their
  slots are the same before and after, so the block the assigned-to Vector owned is not
  released and its elements are not destroyed. On the example, \<open>v\<close> (object 0, holding
  \<open>[1, 2]\<close> in the block at address 0) is assigned from the empty Vector \<open>rhs\<close> (object 1):
  afterwards both objects have a null buffer, and the block at address 0 is still allocated
  with both elements constructed, owned by nobody. And when \<open>v\<close> is assigned from itself it
  does not end with its former elements: its buffer is null and it has no element to read,
  though its size is still 2.
\<close>

theorem Vector_move_assign_leaks_block:
  "mem (Vector_move_assign this rhs w) = mem w \<and>
   (let w1 = Vector_move_assign 0 1 (world_of [1, 2 :: int] 2) in
      buffer_m (data_m (objs w1 0)) = None \<and> buffer_m (data_m (objs w1 1)) = None \<and>
      Size (objs w1 0) = 0 \<and> Size (objs w1 1) = 0 \<and>
      extent (mem w1) 0 = Some 2 \<and> cell (mem w1) 0 0 = Some 1 \<and> cell (mem w1) 0 1 = Some 2) \<and>
   (let w2 = Vector_move_assign 0 0 (world_of [1, 2 :: int] 2) in
      buffer_m (data_m (objs w2 0)) = None \<and> Size (objs w2 0) = 2 \<and>
      elements (objs w2 0) (mem w2) = [] \<and> extent (mem w2) 0 = Some 2)"
  by (simp add: Vector_move_assign_def RawMemory_move_assign_def set_buffer_def set_capacity_def
      set_size_def Let_def world_of_def heap_of_def vector_of_def Vector_default_def
      RawMemory_default_def Size_def elements_def)

text \<open>
  C6. Move assignment of a Vector to itself leaves it with its old size, a null buffer and
  capacity 0: for every Vector of size above 0 the size then exceeds the capacity. On the
  example the well-formed Vector holding \<open>[1, 2]\<close> ends with size 2 and capacity 0, and no
  longer satisfies the invariant.
\<close>

theorem Vector_move_assign_self_breaks_invariant:
  "Size (objs (Vector_move_assign this this w) this) = Size (objs w this) \<and>
   Capacity (objs (Vector_move_assign this this w) this) = 0 \<and>
   buffer_m (data_m (objs (Vector_move_assign this this w) this)) = None \<and>
   invariant (objs (world_of [1, 2 :: int] 2) 0) (mem (world_of [1, 2 :: int] 2)) \<and>
   (let w1 = Vector_move_assign 0 0 (world_of [1, 2 :: int] 2) in
      Size (objs w1 0) = 2 \<and> Capacity (objs w1 0) = 0 \<and>
      \<not> Size (objs w1 0) \<le> Capacity (objs w1 0) \<and>
      \<not> invariant (objs w1 0) (mem w1))"
proof -
  have inv: "invariant (objs (world_of [1, 2 :: int] 2) 0) (mem (world_of [1, 2 :: int] 2))"
    using holds_invariant [OF holds_vector_of, of "[1, 2 :: int]" 2]
    by (simp add: world_of_def)
  show ?thesis
    using inv
    by (simp add: Vector_move_assign_self Size_def Capacity_def Let_def invariant_def holds_def
        world_of_def vector_of_def)
qed

section \<open>Copy assignment into existing storage\<close>

lemma Vector_copy_assign_self: "Vector_copy_assign this this w = Inr w"
  by (simp add: Vector_copy_assign_def)

lemma copy_region_ok:
  assumes hv: "holds v h xs" and hr: "holds r h ys" and fit: "length ys \<le> capacity_m (data_m v)"
    and va: "buffer_m (data_m v) = Some a"
    and sep: "buffer_m (data_m r) \<noteq> Some a"
  shows "\<exists>h'. (if size_m r < size_m v then
               then_do (copy_n (GetAddress (data_m r)) (size_m r) (GetAddress (data_m v)) h) (\<lambda>(end_p, h1).
               destroy_n end_p (size_m v - size_m r) h1)
             else
               then_do (copy_n (GetAddress (data_m r)) (size_m v) (GetAddress (data_m v)) h) (\<lambda>(end_p, h1).
               uninitialized_copy_n (ptr_add (GetAddress (data_m r)) (size_m v)) (size_m r - size_m v) end_p h1))
            = Inr h' \<and>
          extent h' = extent h \<and> brk h' = brk h \<and>
          (\<forall>a' k. a' \<noteq> a \<longrightarrow> cell h' a' k = cell h a' k) \<and>
          (\<forall>k<capacity_m (data_m v). cell h' a k = (if k < length ys then Some (ys ! k) else None))"
proof -
  let ?cap = "capacity_m (data_m v)"
  have sv: "size_m v = length xs" and sr: "size_m r = length ys"
    using holds_size [OF hv] holds_size [OF hr] by simp_all
  note blk = holds_block [OF hv va]
  have xle: "length xs \<le> ?cap" using holds_le [OF hv] .
  have cv: "\<And>k. k < ?cap \<Longrightarrow> cell h a k = (if k < length xs then Some (xs ! k) else None)"
    using holds_cell [OF hv va] .
  show ?thesis
  proof (cases "ys = []")
    case True
    let ?h' = "h\<lparr>cell := (\<lambda>a' k. if a' = a \<and> k < length xs then None else cell h a' k)\<rparr>"
    have d: "destroy_n (Some a, 0) (length xs) h = Inr ?h'"
      using blk xle cv by (intro destroy_n_from0 [where na = ?cap]) simp_all
    have run: "(if size_m r < size_m v then
               then_do (copy_n (GetAddress (data_m r)) (size_m r) (GetAddress (data_m v)) h) (\<lambda>(end_p, h1).
               destroy_n end_p (size_m v - size_m r) h1)
             else
               then_do (copy_n (GetAddress (data_m r)) (size_m v) (GetAddress (data_m v)) h) (\<lambda>(end_p, h1).
               uninitialized_copy_n (ptr_add (GetAddress (data_m r)) (size_m v)) (size_m r - size_m v) end_p h1))
            = Inr ?h'"
    proof (cases "xs = []")
      case True
      have "?h' = h" using True by (intro cell_update_id) simp
      with True \<open>ys = []\<close> show ?thesis by (simp add: sv sr)
    next
      case False
      with \<open>ys = []\<close> d show ?thesis by (simp add: sv sr GetAddress_def va)
    qed
    have "\<forall>k<?cap. cell ?h' a k = (if k < length ys then Some (ys ! k) else None)"
      using True cv by simp
    with run show ?thesis by (intro exI [of _ ?h']) simp
  next
    case False
    then have ypos: "0 < length ys" by simp
    then obtain b where rb: "buffer_m (data_m r) = Some b"
      using holds_null [OF hr] by (cases "buffer_m (data_m r)") auto
    with sep have ne: "b \<noteq> a" by simp
    note blkr = holds_block [OF hr rb]
    let ?capr = "capacity_m (data_m r)"
    have yle: "length ys \<le> ?capr" using holds_le [OF hr] .
    have cr: "\<And>k. k < ?capr \<Longrightarrow> cell h b k = (if k < length ys then Some (ys ! k) else None)"
      using holds_cell [OF hr rb] .
    show ?thesis
    proof (cases "length ys < length xs")
      case True
      let ?h1 = "h\<lparr>cell := (\<lambda>a' k. if a' = a \<and> 0 \<le> k \<and> k < 0 + length ys then cell h b (0 + (k - 0))
                               else cell h a' k)\<rparr>"
      have c: "copy_n (Some b, 0) (length ys) (Some a, 0) h = Inr ((Some a, 0 + length ys), ?h1)"
      proof (rule copy_n_ok [where na = ?capr and nb = ?cap])
        show "extent h b = Some ?capr" using blkr by simp
        show "extent h a = Some ?cap" using blk by simp
        show "b \<noteq> a" by (rule ne)
        show "0 + length ys \<le> ?capr" using yle by simp
        show "0 + length ys \<le> ?cap" using fit by simp
        show "\<forall>k. 0 \<le> k \<and> k < 0 + length ys \<longrightarrow> cell h b k \<noteq> None" using cr yle by simp
        show "\<forall>k. 0 \<le> k \<and> k < 0 + length ys \<longrightarrow> cell h a k \<noteq> None" using cv True xle by simp
      qed
      let ?h2 = "?h1\<lparr>cell := (\<lambda>a' k. if a' = a \<and> length ys \<le> k \<and> k < length ys + (length xs - length ys)
                                then None else cell ?h1 a' k)\<rparr>"
      have d: "destroy_n (Some a, length ys) (length xs - length ys) ?h1 = Inr ?h2"
      proof (rule destroy_n_ok [where na = ?cap])
        show "extent ?h1 a = Some ?cap" using blk by simp
        show "length ys + (length xs - length ys) \<le> ?cap" using True xle by simp
        show "\<forall>k. length ys \<le> k \<and> k < length ys + (length xs - length ys) \<longrightarrow> cell ?h1 a k \<noteq> None"
          using cv xle True by auto
      qed
      have run: "(if size_m r < size_m v then
               then_do (copy_n (GetAddress (data_m r)) (size_m r) (GetAddress (data_m v)) h) (\<lambda>(end_p, h1).
               destroy_n end_p (size_m v - size_m r) h1)
             else
               then_do (copy_n (GetAddress (data_m r)) (size_m v) (GetAddress (data_m v)) h) (\<lambda>(end_p, h1).
               uninitialized_copy_n (ptr_add (GetAddress (data_m r)) (size_m v)) (size_m r - size_m v) end_p h1))
            = Inr ?h2"
        using True c d by (simp add: sv sr GetAddress_def va rb)
      have "\<forall>k<?cap. cell ?h2 a k = (if k < length ys then Some (ys ! k) else None)"
        using cv cr True xle yle by auto
      with run ne show ?thesis by (intro exI [of _ ?h2]) simp
    next
      case False
      then have xy: "length xs \<le> length ys" by simp
      let ?h1 = "h\<lparr>cell := (\<lambda>a' k. if a' = a \<and> 0 \<le> k \<and> k < 0 + length xs then cell h b (0 + (k - 0))
                               else cell h a' k)\<rparr>"
      have c: "copy_n (Some b, 0) (length xs) (Some a, 0) h = Inr ((Some a, 0 + length xs), ?h1)"
      proof (rule copy_n_ok [where na = ?capr and nb = ?cap])
        show "extent h b = Some ?capr" using blkr by simp
        show "extent h a = Some ?cap" using blk by simp
        show "b \<noteq> a" by (rule ne)
        show "0 + length xs \<le> ?capr" using yle xy by simp
        show "0 + length xs \<le> ?cap" using xle by simp
        show "\<forall>k. 0 \<le> k \<and> k < 0 + length xs \<longrightarrow> cell h b k \<noteq> None" using cr yle xy by simp
        show "\<forall>k. 0 \<le> k \<and> k < 0 + length xs \<longrightarrow> cell h a k \<noteq> None" using cv xle by simp
      qed
      let ?h2 = "?h1\<lparr>cell := (\<lambda>a' k. if a' = a \<and> length xs \<le> k \<and> k < length xs + (length ys - length xs)
                                then cell ?h1 b (length xs + (k - length xs)) else cell ?h1 a' k)\<rparr>"
      have u: "uninitialized_copy_n (Some b, length xs) (length ys - length xs) (Some a, length xs) ?h1 = Inr ?h2"
      proof (rule uninitialized_copy_n_ok [where na = ?capr and nb = ?cap])
        show "extent ?h1 b = Some ?capr" using blkr by simp
        show "extent ?h1 a = Some ?cap" using blk by simp
        show "b \<noteq> a" by (rule ne)
        show "length xs + (length ys - length xs) \<le> ?capr" using yle xy by simp
        show "length xs + (length ys - length xs) \<le> ?cap" using fit xy by simp
        show "\<forall>k. length xs \<le> k \<and> k < length xs + (length ys - length xs) \<longrightarrow> cell ?h1 b k \<noteq> None"
          using cr yle xy ne by simp
      qed
      have run: "(if size_m r < size_m v then
               then_do (copy_n (GetAddress (data_m r)) (size_m r) (GetAddress (data_m v)) h) (\<lambda>(end_p, h1).
               destroy_n end_p (size_m v - size_m r) h1)
             else
               then_do (copy_n (GetAddress (data_m r)) (size_m v) (GetAddress (data_m v)) h) (\<lambda>(end_p, h1).
               uninitialized_copy_n (ptr_add (GetAddress (data_m r)) (size_m v)) (size_m r - size_m v) end_p h1))
            = Inr ?h2"
        using False c u by (simp add: sv sr GetAddress_def va rb)
      have "\<forall>k<?cap. cell ?h2 a k = (if k < length ys then Some (ys ! k) else None)"
        using cv cr xy xle yle ne by auto
      with run ne show ?thesis by (intro exI [of _ ?h2]) simp
    qed
  qed
qed


lemma holds_frame:
  assumes "holds r h ys" "brk h' = brk h" "extent h' = extent h"
    and "\<And>b k. buffer_m (data_m r) = Some b \<Longrightarrow> cell h' b k = cell h b k"
  shows "holds r h' ys"
proof (cases "buffer_m (data_m r)")
  case None
  with assms(1) show ?thesis by (auto simp: holds_def)
next
  case (Some b)
  have "cell h' b = cell h b" using assms(4) [OF Some] by (simp add: fun_eq_iff)
  with assms(1-3) Some show ?thesis by (simp add: holds_def)
qed

lemma Vector_copy_assign_inplace:
  assumes ne: "this \<noteq> rhs"
    and hv: "holds (objs w this) (mem w) xs" and hr: "holds (objs w rhs) (mem w) ys"
    and fit: "length ys \<le> capacity_m (data_m (objs w this))"
    and sep: "buffer_m (data_m (objs w this)) = None \<or>
              buffer_m (data_m (objs w rhs)) \<noteq> buffer_m (data_m (objs w this))"
  shows "\<exists>h'. Vector_copy_assign this rhs w =
             Inr (w\<lparr>objs := (objs w)(this := (objs w this)\<lparr>size_m := length ys\<rparr>), mem := h'\<rparr>) \<and>
           extent h' = extent (mem w) \<and> brk h' = brk (mem w) \<and>
           holds ((objs w this)\<lparr>size_m := length ys\<rparr>) h' ys \<and>
           holds (objs w rhs) h' ys \<and>
           (\<forall>k. length ys \<le> k \<and> k < length xs \<longrightarrow>
                slot (buffer_m (data_m (objs w this)), k) h' = Inr None)"
proof -
  let ?v = "objs w this" and ?r = "objs w rhs" and ?h = "mem w"
  let ?v' = "?v\<lparr>size_m := length ys\<rparr>"
  have sv: "size_m ?v = length xs" and sr: "size_m ?r = length ys"
    using holds_size [OF hv] holds_size [OF hr] by simp_all
  have nogrow: "\<not> capacity_m (data_m ?v) < size_m ?r" using fit sr by simp
  show ?thesis
  proof (cases "buffer_m (data_m ?v)")
    case None
    from holds_null [OF hv None] fit have z: "xs = []" "ys = []" "capacity_m (data_m ?v) = 0"
      by simp_all
    have run: "Vector_copy_assign this rhs w = Inr (w\<lparr>objs := (objs w)(this := ?v'), mem := ?h\<rparr>)"
      using ne nogrow z by (simp add: Vector_copy_assign_def Let_def sv sr)
    have "holds ?v' ?h ys" using hv z None by (simp add: holds_def)
    with run hr z show ?thesis by (intro exI [of _ ?h]) simp
  next
    case (Some a)
    with sep have sep': "buffer_m (data_m ?r) \<noteq> Some a" by simp
    from copy_region_ok [OF hv hr fit Some sep'] obtain h' where
      reg: "(if size_m ?r < size_m ?v then
               then_do (copy_n (GetAddress (data_m ?r)) (size_m ?r) (GetAddress (data_m ?v)) ?h) (\<lambda>(end_p, h1).
               destroy_n end_p (size_m ?v - size_m ?r) h1)
             else
               then_do (copy_n (GetAddress (data_m ?r)) (size_m ?v) (GetAddress (data_m ?v)) ?h) (\<lambda>(end_p, h1).
               uninitialized_copy_n (ptr_add (GetAddress (data_m ?r)) (size_m ?v)) (size_m ?r - size_m ?v) end_p h1))
            = Inr h'"
      and ext: "extent h' = extent ?h" and brk: "brk h' = brk ?h"
      and frame: "\<And>a' k. a' \<noteq> a \<Longrightarrow> cell h' a' k = cell ?h a' k"
      and cells: "\<And>k. k < capacity_m (data_m ?v) \<Longrightarrow> cell h' a k = (if k < length ys then Some (ys ! k) else None)"
      by blast
    have run: "Vector_copy_assign this rhs w = Inr (w\<lparr>objs := (objs w)(this := ?v'), mem := h'\<rparr>)"
      using ne nogrow reg sr by (simp add: Vector_copy_assign_def Let_def)
    note blk = holds_block [OF hv Some]
    have hv': "holds ?v' h' ys"
      by (rule holdsI [where a = a]) (use fit Some blk ext brk cells in simp_all)
    have hr': "holds ?r h' ys"
      using hr brk ext
    proof (rule holds_frame)
      fix b k assume "buffer_m (data_m ?r) = Some b"
      with sep' have "b \<noteq> a" by auto
      then show "cell h' b k = cell ?h b k" by (rule frame)
    qed
    have tail: "slot (buffer_m (data_m ?v), k) h' = Inr None" if "length ys \<le> k \<and> k < length xs" for k
    proof -
      have k: "k < capacity_m (data_m ?v)" using that holds_le [OF hv] by simp
      then show ?thesis using cells [OF k] that Some ext blk by simp
    qed
    from run ext brk hv' hr' tail show ?thesis by blast
  qed
qed

lemma holds_two_vectors:
  assumes "length xs \<le> cap"
  shows "holds (objs (two_vectors xs cap ys) 0) (mem (two_vectors xs cap ys)) xs"
    and "holds (objs (two_vectors xs cap ys) 1) (mem (two_vectors xs cap ys)) ys"
proof -
  show "holds (objs (two_vectors xs cap ys) 0) (mem (two_vectors xs cap ys)) xs"
    by (rule holdsI [where a = 0]) (use assms in \<open>simp_all add: two_vectors_def\<close>)
  show "holds (objs (two_vectors xs cap ys) 1) (mem (two_vectors xs cap ys)) ys"
    by (rule holdsI [where a = 1]) (simp_all add: two_vectors_def)
qed

text \<open>
  C8. Copy assignment \<open>v = rhs\<close> between two distinct well-formed Vectors that own different
  blocks, when the size of \<open>rhs\<close> is at most the capacity of \<open>v\<close>: it succeeds; \<open>v\<close> keeps its
  buffer and capacity and the heap allocates and releases nothing; the size of \<open>v\<close> becomes
  that of \<open>rhs\<close> and \<open>v\<close> holds the elements of \<open>rhs\<close>, which is itself unchanged; and every
  slot of \<open>v\<close> from the new size up to the old size is raw afterwards, its element
  destroyed. And assignment of a Vector to itself returns the state unchanged.
\<close>

theorem Vector_copy_assign_reuses_storage:
  "(this \<noteq> rhs \<and> holds (objs w this) (mem w) xs \<and> holds (objs w rhs) (mem w) ys \<and>
    Size (objs w rhs) \<le> Capacity (objs w this) \<and>
    (buffer_m (data_m (objs w this)) = None \<or>
     buffer_m (data_m (objs w rhs)) \<noteq> buffer_m (data_m (objs w this))) \<longrightarrow>
    (\<exists>w'. Vector_copy_assign this rhs w = Inr w' \<and>
       data_m (objs w' this) = data_m (objs w this) \<and>
       Capacity (objs w' this) = Capacity (objs w this) \<and>
       extent (mem w') = extent (mem w) \<and> brk (mem w') = brk (mem w) \<and>
       Size (objs w' this) = Size (objs w rhs) \<and>
       holds (objs w' this) (mem w') ys \<and> elements (objs w' this) (mem w') = ys \<and>
       objs w' rhs = objs w rhs \<and> holds (objs w' rhs) (mem w') ys \<and>
       (\<forall>k. length ys \<le> k \<and> k < length xs \<longrightarrow>
            slot (buffer_m (data_m (objs w this)), k) (mem w') = Inr None))) \<and>
   Vector_copy_assign this this w = Inr w"
proof (intro conjI impI)
  assume a: "this \<noteq> rhs \<and> holds (objs w this) (mem w) xs \<and> holds (objs w rhs) (mem w) ys \<and>
    Size (objs w rhs) \<le> Capacity (objs w this) \<and>
    (buffer_m (data_m (objs w this)) = None \<or>
     buffer_m (data_m (objs w rhs)) \<noteq> buffer_m (data_m (objs w this)))"
  then have ne: "this \<noteq> rhs" and hv: "holds (objs w this) (mem w) xs"
    and hr: "holds (objs w rhs) (mem w) ys"
    and sep: "buffer_m (data_m (objs w this)) = None \<or>
     buffer_m (data_m (objs w rhs)) \<noteq> buffer_m (data_m (objs w this))"
    by simp_all
  from a have fit: "length ys \<le> capacity_m (data_m (objs w this))"
    using holds_size [OF hr] by (simp add: Size_def Capacity_def)
  from Vector_copy_assign_inplace [OF ne hv hr fit sep] obtain h' where
    run: "Vector_copy_assign this rhs w =
             Inr (w\<lparr>objs := (objs w)(this := (objs w this)\<lparr>size_m := length ys\<rparr>), mem := h'\<rparr>)"
    and ext: "extent h' = extent (mem w)" and brk: "brk h' = brk (mem w)"
    and hv': "holds ((objs w this)\<lparr>size_m := length ys\<rparr>) h' ys"
    and hr': "holds (objs w rhs) h' ys"
    and tail: "\<forall>k. length ys \<le> k \<and> k < length xs \<longrightarrow>
                slot (buffer_m (data_m (objs w this)), k) h' = Inr None"
    by blast
  let ?w' = "w\<lparr>objs := (objs w)(this := (objs w this)\<lparr>size_m := length ys\<rparr>), mem := h'\<rparr>"
  show "\<exists>w'. Vector_copy_assign this rhs w = Inr w' \<and>
       data_m (objs w' this) = data_m (objs w this) \<and>
       Capacity (objs w' this) = Capacity (objs w this) \<and>
       extent (mem w') = extent (mem w) \<and> brk (mem w') = brk (mem w) \<and>
       Size (objs w' this) = Size (objs w rhs) \<and>
       holds (objs w' this) (mem w') ys \<and> elements (objs w' this) (mem w') = ys \<and>
       objs w' rhs = objs w rhs \<and> holds (objs w' rhs) (mem w') ys \<and>
       (\<forall>k. length ys \<le> k \<and> k < length xs \<longrightarrow>
            slot (buffer_m (data_m (objs w this)), k) (mem w') = Inr None)"
    using run ext brk hv' hr' tail ne holds_size [OF hr] holds_elements [OF hv']
    by (intro exI [of _ ?w']) (simp add: Size_def Capacity_def)
next
  show "Vector_copy_assign this this w = Inr w" by (rule Vector_copy_assign_self)
qed

theorem Vector_copy_assign_reuses_storage_witness:
  "(0 :: nat) \<noteq> 1 \<and>
   holds (objs (two_vectors [1, 2, 3, 4, 5 :: int] 5 [8, 9]) 0) (mem (two_vectors [1, 2, 3, 4, 5 :: int] 5 [8, 9]))
     [1, 2, 3, 4, 5] \<and>
   holds (objs (two_vectors [1, 2, 3, 4, 5 :: int] 5 [8, 9]) 1) (mem (two_vectors [1, 2, 3, 4, 5 :: int] 5 [8, 9]))
     [8, 9] \<and>
   (\<exists>w'. Vector_copy_assign 0 1 (two_vectors [1, 2, 3, 4, 5 :: int] 5 [8, 9]) = Inr w' \<and>
      Capacity (objs w' 0) = 5 \<and> Size (objs w' 0) = 2 \<and> elements (objs w' 0) (mem w') = [8, 9] \<and>
      slot (Some 0, 2) (mem w') = Inr None \<and> slot (Some 0, 3) (mem w') = Inr None \<and>
      slot (Some 0, 4) (mem w') = Inr None)"
proof -
  let ?w = "two_vectors [1, 2, 3, 4, 5 :: int] 5 [8, 9]"
  have h0: "holds (objs ?w 0) (mem ?w) [1, 2, 3, 4, 5]"
    by (rule holds_two_vectors) simp
  have h1: "holds (objs ?w 1) (mem ?w) [8, 9]"
    by (rule holds_two_vectors) simp
  have pre: "(0 :: nat) \<noteq> 1 \<and> holds (objs ?w 0) (mem ?w) [1, 2, 3, 4, 5] \<and> holds (objs ?w 1) (mem ?w) [8, 9] \<and>
    Size (objs ?w 1) \<le> Capacity (objs ?w 0) \<and>
    (buffer_m (data_m (objs ?w 0)) = None \<or>
     buffer_m (data_m (objs ?w 1)) \<noteq> buffer_m (data_m (objs ?w 0)))"
    using h0 h1 by (simp add: two_vectors_def Size_def Capacity_def)
  from Vector_copy_assign_reuses_storage [of 0 1 ?w "[1, 2, 3, 4, 5]" "[8, 9]"] pre
  obtain w' where
    run: "Vector_copy_assign 0 1 ?w = Inr w'"
    and cap: "Capacity (objs w' 0) = Capacity (objs ?w 0)"
    and sz: "Size (objs w' 0) = Size (objs ?w 1)"
    and el: "elements (objs w' 0) (mem w') = [8, 9]"
    and tail: "\<forall>k. length [8, 9 :: int] \<le> k \<and> k < length [1, 2, 3, 4, 5 :: int] \<longrightarrow>
            slot (buffer_m (data_m (objs ?w 0)), k) (mem w') = Inr None"
    by blast
  have b: "buffer_m (data_m (objs ?w 0)) = Some 0" by (simp add: two_vectors_def)
  from tail [rule_format, of 2] tail [rule_format, of 3] tail [rule_format, of 4] b
  have "slot (Some 0, 2) (mem w') = Inr None" "slot (Some 0, 3) (mem w') = Inr None"
    "slot (Some 0, 4) (mem w') = Inr None"
    by simp_all
  moreover from cap have "Capacity (objs w' 0) = 5" by (simp add: two_vectors_def Capacity_def)
  moreover from sz have "Size (objs w' 0) = 2" by (simp add: two_vectors_def Size_def)
  ultimately show ?thesis using run el h0 h1
    by (intro conjI exI [of _ w']) simp_all
qed

section \<open>Capacity and size after Reserve\<close>

lemma RawMemory_sized_capacity: "RawMemory_sized n h = (m, h1) \<Longrightarrow> capacity_m m = n"
  by (cases "Allocate n h") (auto simp: RawMemory_sized_def)

lemma Reserve_capacity:
  assumes "Reserve c n (v, h) = Inr (v', h')"
  shows "Capacity v' = (if n \<le> Capacity v then Capacity v else n) \<and> size_m v' = size_m v"
proof (cases "n \<le> Capacity v")
  case True
  with assms show ?thesis by (simp add: Reserve_def)
next
  case False
  obtain m h1 where a: "RawMemory_sized n h = (m, h1)" by (cases "RawMemory_sized n h")
  from assms False a have "capacity_m (data_m v') = capacity_m m \<and> size_m v' = size_m v"
    by (auto simp: Reserve_def then_do_eq_Inr RawMemory_Swap_def)
  with RawMemory_sized_capacity [OF a] False show ?thesis by (simp add: Capacity_def)
qed



section \<open>The capacity never shrinks\<close>

lemma MemoryRelocateEmplace_capacity:
  assumes "MemoryRelocateEmplace c p x (v, h) = Inr (v', h')"
  shows "Capacity v' = (if size_m v = 0 then 1 else size_m v * 2)"
proof -
  obtain m h1 where a: "RawMemory_sized (if size_m v = 0 then 1 else size_m v * 2) h = (m, h1)"
    by (cases "RawMemory_sized (if size_m v = 0 then 1 else size_m v * 2) h")
  from assms a have "capacity_m (data_m v') = capacity_m m"
    by (auto simp: MemoryRelocateEmplace_def Let_def then_do_eq_Inr RawMemory_Swap_def split: if_splits)
  with RawMemory_sized_capacity [OF a] show ?thesis by (simp add: Capacity_def)
qed

lemma NoMemoryRelocateEmplace_capacity:
  assumes "NoMemoryRelocateEmplace c p x (v, h) = Inr (v', h')"
  shows "Capacity v' = Capacity v"
  using assms
  by (auto simp: NoMemoryRelocateEmplace_def Let_def then_do_eq_Inr Capacity_def split: if_splits)

lemma Emplace_capacity:
  assumes "Emplace c pos x (v, h) = Inr (it, v', h')"
  shows "Capacity v \<le> Capacity v'"
proof -
  from assms obtain p where
    step: "(if size_m v = Capacity v then MemoryRelocateEmplace c p x (v, h)
            else NoMemoryRelocateEmplace c p x (v, h)) = Inr (v', h')"
    by (auto simp: Emplace_def Let_def then_do_eq_Inr)
  show ?thesis
  proof (cases "size_m v = Capacity v")
    case True
    with step have "Capacity v' = (if size_m v = 0 then 1 else size_m v * 2)"
      by (simp add: MemoryRelocateEmplace_capacity)
    with True show ?thesis by simp
  next
    case False
    with step show ?thesis by (simp add: NoMemoryRelocateEmplace_capacity)
  qed
qed

lemma EmplaceBack_capacity:
  assumes "EmplaceBack c x (v, h) = Inr (it, v', h')"
  shows "Capacity v \<le> Capacity v'"
proof -
  from assms obtain it1 where "Emplace c (end_it v) x (v, h) = Inr (it1, v', h')"
    by (auto simp: EmplaceBack_def then_do_eq_Inr)
  then show ?thesis by (rule Emplace_capacity)
qed

lemma PushBack_capacity:
  assumes "PushBack c x (v, h) = Inr (v', h')"
  shows "Capacity v \<le> Capacity v'"
proof -
  from assms obtain it where "EmplaceBack c x (v, h) = Inr (it, v', h')"
    by (auto simp: PushBack_def then_do_eq_Inr)
  then show ?thesis by (rule EmplaceBack_capacity)
qed

lemma PopBack_capacity:
  assumes "PopBack c (v, h) = Inr (v', h')"
  shows "Capacity v' = Capacity v"
  using assms
  by (auto simp: PopBack_def then_do_eq_Inr Capacity_def split: if_splits)

lemma Erase_capacity:
  assumes "Erase c pos (v, h) = Inr (it, v', h')"
  shows "Capacity v' = Capacity v"
  using assms
  by (auto simp: Erase_def Let_def then_do_eq_Inr Capacity_def split: if_splits)

lemma Resize_capacity:
  assumes "Resize c n (v, h) = Inr (v', h')"
  shows "Capacity v \<le> Capacity v'"
proof (cases "Capacity v < n")
  case True
  with assms obtain v1 h1 where r: "Reserve c n (v, h) = Inr (v1, h1)"
    and e: "capacity_m (data_m v') = capacity_m (data_m v1)"
    by (auto simp: Resize_def Let_def then_do_eq_Inr)
  from Reserve_capacity [OF r] True e show ?thesis by (simp add: Capacity_def)
next
  case False
  with assms show ?thesis
    by (auto simp: Resize_def Let_def then_do_eq_Inr Capacity_def split: if_splits)
qed


lemma PopBack_block:
  assumes "PopBack c (v, h) = Inr (v', h')"
  shows "data_m v' = data_m v"
  using assms
  by (auto simp: PopBack_def then_do_eq_Inr split: if_splits)

lemma Erase_block:
  assumes "Erase c pos (v, h) = Inr (it, v', h')"
  shows "data_m v' = data_m v"
  using assms
  by (auto simp: Erase_def Let_def then_do_eq_Inr split: if_splits)

lemma observed_result: "observe r = Inr y \<Longrightarrow> \<exists>v h. r = Inr (v, h)"
  by (cases r) (auto simp: observe_def)

lemma dropped_iterator: "drop_iterator r = Inr (v, h) \<Longrightarrow> \<exists>it. r = Inr (it, v, h)"
  by (cases r) (auto simp: drop_iterator_def)

text \<open>
  C10. Whenever \<open>PushBack\<close>, \<open>EmplaceBack\<close>, \<open>Emplace\<close>, \<open>Insert\<close>, \<open>PopBack\<close>, \<open>Erase\<close>, \<open>Resize\<close>
  or \<open>Reserve\<close> returns normally, on any Vector and heap, the capacity afterwards is at
  least the capacity before; \<open>PopBack\<close> and \<open>Erase\<close> leave the block pointer and the capacity
  exactly as they were.
\<close>

theorem capacity_never_decreases:
  "(PushBack c x (v, h) = Inr (v', h') \<longrightarrow> Capacity v \<le> Capacity v') \<and>
   (EmplaceBack c x (v, h) = Inr (it, v', h') \<longrightarrow> Capacity v \<le> Capacity v') \<and>
   (Emplace c pos x (v, h) = Inr (it, v', h') \<longrightarrow> Capacity v \<le> Capacity v') \<and>
   (Insert c pos x (v, h) = Inr (it, v', h') \<longrightarrow> Capacity v \<le> Capacity v') \<and>
   (PopBack c (v, h) = Inr (v', h') \<longrightarrow> Capacity v \<le> Capacity v' \<and> data_m v' = data_m v) \<and>
   (Erase c pos (v, h) = Inr (it, v', h') \<longrightarrow> Capacity v \<le> Capacity v' \<and> data_m v' = data_m v) \<and>
   (Resize c n (v, h) = Inr (v', h') \<longrightarrow> Capacity v \<le> Capacity v') \<and>
   (Reserve c n (v, h) = Inr (v', h') \<longrightarrow> Capacity v \<le> Capacity v')"
proof (intro conjI impI)
  assume "PushBack c x (v, h) = Inr (v', h')"
  then show "Capacity v \<le> Capacity v'" by (rule PushBack_capacity)
next
  assume "EmplaceBack c x (v, h) = Inr (it, v', h')"
  then show "Capacity v \<le> Capacity v'" by (rule EmplaceBack_capacity)
next
  assume "Emplace c pos x (v, h) = Inr (it, v', h')"
  then show "Capacity v \<le> Capacity v'" by (rule Emplace_capacity)
next
  assume "Insert c pos x (v, h) = Inr (it, v', h')"
  then show "Capacity v \<le> Capacity v'" unfolding Insert_def by (rule Emplace_capacity)
next
  assume "PopBack c (v, h) = Inr (v', h')"
  then show "Capacity v \<le> Capacity v'" by (simp add: PopBack_capacity)
next
  assume "PopBack c (v, h) = Inr (v', h')"
  then show "data_m v' = data_m v" by (rule PopBack_block)
next
  assume "Erase c pos (v, h) = Inr (it, v', h')"
  then show "Capacity v \<le> Capacity v'" by (simp add: Erase_capacity)
next
  assume "Erase c pos (v, h) = Inr (it, v', h')"
  then show "data_m v' = data_m v" by (rule Erase_block)
next
  assume "Resize c n (v, h) = Inr (v', h')"
  then show "Capacity v \<le> Capacity v'" by (rule Resize_capacity)
next
  assume "Reserve c n (v, h) = Inr (v', h')"
  then show "Capacity v \<le> Capacity v'" using Reserve_capacity by fastforce
qed

theorem capacity_never_decreases_witness:
  "(\<exists>v' h'. PushBack int_release 7 (vector_of [1, 2, 3 :: int] 3, heap_of [1, 2, 3 :: int] 3) = Inr (v', h') \<and>
      Capacity (vector_of [1, 2, 3 :: int] 3) \<le> Capacity v') \<and>
   (\<exists>it v' h'. EmplaceBack int_release 7 (vector_of [1, 2, 3 :: int] 3, heap_of [1, 2, 3 :: int] 3) = Inr (it, v', h') \<and>
      Capacity (vector_of [1, 2, 3 :: int] 3) \<le> Capacity v') \<and>
   (\<exists>it v' h'. Emplace int_release (ptr_add (begin_it (vector_of [1, 2, 3 :: int] 3)) 1) 7
        (vector_of [1, 2, 3 :: int] 3, heap_of [1, 2, 3 :: int] 3) = Inr (it, v', h') \<and>
      Capacity (vector_of [1, 2, 3 :: int] 3) \<le> Capacity v') \<and>
   (\<exists>it v' h'. Insert int_release (ptr_add (begin_it (vector_of [1, 2, 3 :: int] 3)) 1) 7
        (vector_of [1, 2, 3 :: int] 3, heap_of [1, 2, 3 :: int] 3) = Inr (it, v', h') \<and>
      Capacity (vector_of [1, 2, 3 :: int] 3) \<le> Capacity v') \<and>
   (\<exists>v' h'. PopBack int_release (vector_of [1, 2, 3 :: int] 3, heap_of [1, 2, 3 :: int] 3) = Inr (v', h') \<and>
      Capacity (vector_of [1, 2, 3 :: int] 3) \<le> Capacity v') \<and>
   (\<exists>it v' h'. Erase int_release (ptr_add (begin_it (vector_of [1, 2, 3 :: int] 3)) 1)
        (vector_of [1, 2, 3 :: int] 3, heap_of [1, 2, 3 :: int] 3) = Inr (it, v', h') \<and>
      Capacity (vector_of [1, 2, 3 :: int] 3) \<le> Capacity v') \<and>
   (\<exists>v' h'. Resize int_release 1 (vector_of [1, 2, 3 :: int] 3, heap_of [1, 2, 3 :: int] 3) = Inr (v', h') \<and>
      Capacity (vector_of [1, 2, 3 :: int] 3) \<le> Capacity v') \<and>
   (\<exists>v' h'. Reserve int_release 9 (vector_of [1, 2, 3 :: int] 3, heap_of [1, 2, 3 :: int] 3) = Inr (v', h') \<and>
      Capacity (vector_of [1, 2, 3 :: int] 3) \<le> Capacity v')"
proof -
  let ?v = "vector_of [1, 2, 3 :: int] 3" and ?h = "heap_of [1, 2, 3 :: int] 3"
  let ?c = int_release
  have hv: "holds ?v ?h [1, 2, 3]" by (rule holds_vector_of) simp
  have p: "(1 :: nat) \<le> length [1, 2, 3 :: int]" by simp
  have ne: "[1, 2, 3 :: int] \<noteq> []" by simp
  from PushBack_ok [OF hv, of ?c 7] obtain v1 h1 where
    r1: "PushBack ?c 7 (?v, ?h) = Inr (v1, h1)" by blast
  from EmplaceBack_ok [OF hv, of ?c 7] obtain it2 v2 h2 where
    r2: "EmplaceBack ?c 7 (?v, ?h) = Inr (it2, v2, h2)" by blast
  from Emplace_ok [OF hv p, of ?c 7] obtain it3 v3 h3 where
    r3: "Emplace ?c (ptr_add (begin_it ?v) 1) 7 (?v, ?h) = Inr (it3, v3, h3)" by blast
  then have r4: "Insert ?c (ptr_add (begin_it ?v) 1) 7 (?v, ?h) = Inr (it3, v3, h3)"
    by (simp add: Insert_def)
  from PopBack_ok [OF hv ne, of ?c] obtain v5 h5 where
    r5: "PopBack ?c (?v, ?h) = Inr (v5, h5)" by blast
  have "observe (drop_iterator (Erase ?c (ptr_add (begin_it ?v) 1) (?v, ?h))) = Inr (2, [1, 3])"
    by code_simp
  then obtain it6 v6 h6 where
    r6: "Erase ?c (ptr_add (begin_it ?v) 1) (?v, ?h) = Inr (it6, v6, h6)"
    using observed_result dropped_iterator by blast
  have "observe (Resize ?c 1 (?v, ?h)) = Inr (1, [1])"
    by code_simp
  then obtain v7 h7 where
    r7: "Resize ?c 1 (?v, ?h) = Inr (v7, h7)"
    using observed_result by blast
  from Reserve_grow [OF hv, of 9 ?c] obtain v8 h8 where
    r8: "Reserve ?c 9 (?v, ?h) = Inr (v8, h8)"
    by (auto simp: Capacity_def vector_of_def)
  note t = capacity_never_decreases
  from t [of ?c 7 ?v ?h v1 h1] r1 have c1: "Capacity ?v \<le> Capacity v1" by blast
  from t [of ?c 7 ?v ?h v2 h2 it2] r2 have c2: "Capacity ?v \<le> Capacity v2" by blast
  from t [of ?c 7 ?v ?h v3 h3 it3 "ptr_add (begin_it ?v) 1"] r3 r4
  have c3: "Capacity ?v \<le> Capacity v3" by blast
  from t [of ?c 7 ?v ?h v5 h5] r5 have c5: "Capacity ?v \<le> Capacity v5" by blast
  from t [of ?c 7 ?v ?h v6 h6 it6 "ptr_add (begin_it ?v) 1"] r6
  have c6: "Capacity ?v \<le> Capacity v6" by blast
  from t [of ?c 7 ?v ?h v7 h7 _ _ 1] r7 have c7: "Capacity ?v \<le> Capacity v7" by blast
  from t [of ?c 7 ?v ?h v8 h8 _ _ 9] r8 have c8: "Capacity ?v \<le> Capacity v8" by blast
  from r1 c1 r2 c2 r3 r4 c3 r5 c5 r6 c6 r7 c7 r8 c8 show ?thesis by blast
qed

end
